theory Spec2Isabelle
  imports Main "HOL-Library.AList" "HOL-Library.Sublist"
begin

section \<open>Strings, numbers and the clock\<close>

text \<open>
  Python's \<open>str(n)\<close> of a non-negative integer: its decimal digits, most significant
  first, with no padding.
\<close>

definition digit_char :: "nat \<Rightarrow> char" where
  "digit_char d = ''0123456789'' ! d"

fun str_nat :: "nat \<Rightarrow> string" where
  "str_nat n = (if n < 10 then [digit_char n] else str_nat (n div 10) @ [digit_char (n mod 10)])"

declare str_nat.simps [simp del]

text \<open>The conversion \<open>%02d\<close> that \<open>strftime\<close> applies to each of its fields.\<close>

definition pad2 :: "nat \<Rightarrow> string" where
  "pad2 n = (if n < 10 then CHR ''0'' # str_nat n else str_nat n)"

text \<open>
  \<open>datetime.datetime.now()\<close> returns a value of the library's \<open>datetime\<close> class. The
  class keeps its fields in the ranges of \<open>valid_datetime\<close> (the day is bounded by 31
  here, which is weaker than the library's bound by the length of the month).
\<close>

record datetime =
  year :: nat
  month :: nat
  day :: nat
  hour :: nat
  minute :: nat
  second :: nat

definition valid_datetime :: "datetime \<Rightarrow> bool" where
  "valid_datetime t \<longleftrightarrow>
     1 \<le> year t \<and> year t \<le> 9999 \<and> 1 \<le> month t \<and> month t \<le> 12 \<and>
     1 \<le> day t \<and> day t \<le> 31 \<and> hour t < 24 \<and> minute t < 60 \<and> second t < 60"

text \<open>\<open>now.strftime("%d-%m-%y_%H-%M-%S")\<close>; \<open>%y\<close> is the year without its century.\<close>

definition strftime_backup :: "datetime \<Rightarrow> string" where
  "strftime_backup t =
     pad2 (day t) @ ''-'' @ pad2 (month t) @ ''-'' @ pad2 (year t mod 100) @ ''_'' @
     pad2 (hour t) @ ''-'' @ pad2 (minute t) @ ''-'' @ pad2 (second t)"

text \<open>
  \<open>get_current_time()\<close>: the clock is the one input of the function, so the model takes
  the value that \<open>datetime.datetime.now()\<close> returned.
\<close>

definition get_current_time :: "datetime \<Rightarrow> string" where
  "get_current_time now = (let current_time = strftime_backup now in current_time)"

text \<open>
  \<open>create_zip_filepath(current_time, destination, name)\<close>. \<open>args.name\<close> is \<open>None\<close> when
  \<open>--name\<close> was not given and a string otherwise; \<open>name == None\<close> is false for every
  string, the empty one included.
\<close>

definition create_zip_filepath :: "string \<Rightarrow> string \<Rightarrow> string option \<Rightarrow> string" where
  "create_zip_filepath current_time destination name =
     (let zip_name = (case name of
                        None \<Rightarrow> ''backup_'' @ current_time @ ''.zip''
                      | Some n \<Rightarrow> n @ ''.zip'');
          zip_filepath = destination @ ''/'' @ zip_name
      in zip_filepath)"

text \<open>
  The pattern of the default file name,
  \<^verbatim>\<open>backup_\d{2}-\d{2}-\d{2}_\d{2}-\d{2}-\d{2}\.zip\<close>, as a list of items that each
  consume one character, and a matcher of a whole string against such a list.
\<close>

datatype pat_item = Lit char | Digit

definition is_digit :: "char \<Rightarrow> bool" where
  "is_digit c \<longleftrightarrow> c \<in> set ''0123456789''"

fun matches :: "pat_item list \<Rightarrow> string \<Rightarrow> bool" where
  "matches [] s = (s = [])"
| "matches (Lit c # ps) s = (case s of [] \<Rightarrow> False | x # xs \<Rightarrow> x = c \<and> matches ps xs)"
| "matches (Digit # ps) s = (case s of [] \<Rightarrow> False | x # xs \<Rightarrow> is_digit x \<and> matches ps xs)"

definition two_digits :: "pat_item list" where
  "two_digits = [Digit, Digit]"

definition default_name_pattern :: "pat_item list" where
  "default_name_pattern =
     map Lit ''backup_'' @ two_digits @ [Lit CHR ''-''] @ two_digits @ [Lit CHR ''-''] @
     two_digits @ [Lit CHR ''_''] @ two_digits @ [Lit CHR ''-''] @ two_digits @
     [Lit CHR ''-''] @ two_digits @ map Lit ''.zip''"

section \<open>Paths\<close>

text \<open>\<open>s.split('/')\<close>: the pieces between the slashes; never an empty list.\<close>

fun split_sep :: "string \<Rightarrow> string list" where
  "split_sep [] = [[]]"
| "split_sep (c # cs) =
     (if c = CHR ''/'' then [] # split_sep cs
      else (case split_sep cs of [] \<Rightarrow> [[c]] | x # xs \<Rightarrow> (c # x) # xs))"

text \<open>\<open>'/'.join(comps)\<close>.\<close>

fun join_sep :: "string list \<Rightarrow> string" where
  "join_sep [] = []"
| "join_sep [x] = x"
| "join_sep (x # y # ys) = x @ ''/'' @ join_sep (y # ys)"

text \<open>
  \<open>os.path.join(a, b)\<close> of \<open>posixpath\<close>: an absolute \<open>b\<close> replaces \<open>a\<close>; otherwise
  \<open>b\<close> is appended, after a slash unless \<open>a\<close> is empty or ends with one.
\<close>

definition os_path_join :: "string \<Rightarrow> string \<Rightarrow> string" where
  "os_path_join a b =
     (if b \<noteq> [] \<and> hd b = CHR ''/'' then b
      else if a = [] \<or> last a = CHR ''/'' then a @ b
      else a @ ''/'' @ b)"

text \<open>
  \<open>os.path.normpath\<close> of \<open>posixpath\<close>. The loop over the components keeps the list
  \<open>new_comps\<close>; \<open>ini\<close> says whether the path starts with a slash.
\<close>

fun norm_comps :: "bool \<Rightarrow> string list \<Rightarrow> string list \<Rightarrow> string list" where
  "norm_comps ini new_comps [] = new_comps"
| "norm_comps ini new_comps (c # comps) =
     (if c = [] \<or> c = ''.'' then norm_comps ini new_comps comps
      else if c \<noteq> ''..'' \<or> (\<not> ini \<and> new_comps = []) \<or>
              (new_comps \<noteq> [] \<and> last new_comps = ''..'')
        then norm_comps ini (new_comps @ [c]) comps
      else if new_comps \<noteq> [] then norm_comps ini (butlast new_comps) comps
      else norm_comps ini new_comps comps)"

definition initial_slashes :: "string \<Rightarrow> nat" where
  "initial_slashes p =
     (if take 1 p \<noteq> ''/'' then 0
      else if take 2 p = ''//'' \<and> take 3 p \<noteq> ''///'' then 2
      else 1)"

definition normpath :: "string \<Rightarrow> string" where
  "normpath p =
     (if p = [] then ''.''
      else let ini = initial_slashes p;
               q = replicate ini CHR ''/'' @ join_sep (norm_comps (ini \<noteq> 0) [] (split_sep p))
           in if q = [] then ''.'' else q)"

text \<open>
  The entry name \<open>ZipInfo.from_file(filename)\<close> derives when no \<open>arcname\<close> is given, as
  \<open>zip_obj.write(file_path)\<close> does: \<open>os.path.normpath\<close> of the file name, with the
  leading separators removed (\<open>os.path.splitdrive\<close> is the identity on POSIX).
\<close>

definition arcname_of :: "string \<Rightarrow> string" where
  "arcname_of filename = dropWhile (\<lambda>c. c = CHR ''/'') (normpath filename)"

section \<open>The file system\<close>

text \<open>
  A tree of nodes. A regular file has a size, and the process may or may not read and
  write it. An archive written by \<open>zipfile\<close> is a regular file whose content is known:
  its entries (name and number of bytes stored), and whether the archive has been
  finalized by \<open>close()\<close>. A directory says whether the process may create entries in
  it, and lists its entries in the order \<open>os.scandir\<close> returns them. Symbolic links and
  special files are outside the model.
\<close>

datatype node =
    File nat bool bool
  | Archive "(string \<times> nat) list" bool
  | Dir bool "(string \<times> node) list"

fun is_dir :: "node \<Rightarrow> bool" where
  "is_dir (Dir wr es) = True"
| "is_dir n = False"

text \<open>The node at a list of names below a node.\<close>

fun fs_lookup :: "node \<Rightarrow> string list \<Rightarrow> node option" where
  "fs_lookup n [] = Some n"
| "fs_lookup (Dir wr es) (c # cs) =
     (case map_of es c of None \<Rightarrow> None | Some ch \<Rightarrow> fs_lookup ch cs)"
| "fs_lookup n (c # cs) = None"

text \<open>
  Storing a node at a list of names whose parent is a directory: an entry of that name
  is replaced in place, a new one is appended to its directory.
\<close>

fun fs_put :: "node \<Rightarrow> string list \<Rightarrow> node \<Rightarrow> node" where
  "fs_put n [] new = new"
| "fs_put (Dir wr es) (c # cs) new =
     (case map_of es c of
        Some ch \<Rightarrow> Dir wr (AList.update c (fs_put ch cs new) es)
      | None \<Rightarrow> if cs = [] then Dir wr (AList.update c new es) else Dir wr es)"
| "fs_put n (c # cs) new = n"

datatype errno = ENOENT | ENOTDIR | EEXIST | EACCES | EISDIR

text \<open>
  Path resolution, component by component from the directory \<open>cur\<close>: every component
  is looked up in a directory that exists. The result is the list of names of the path
  from the root; its last name need not exist.
\<close>

definition path_step :: "string list \<Rightarrow> string \<Rightarrow> string list" where
  "path_step cur c =
     (if c = [] \<or> c = ''.'' then cur else if c = ''..'' then butlast cur else cur @ [c])"

fun resolve_from :: "node \<Rightarrow> string list \<Rightarrow> string list \<Rightarrow> errno + string list" where
  "resolve_from r cur [] = Inr cur"
| "resolve_from r cur (c # cs) =
     (case fs_lookup r cur of
        None \<Rightarrow> Inl ENOENT
      | Some n \<Rightarrow> if is_dir n then resolve_from r (path_step cur c) cs else Inl ENOTDIR)"

section \<open>The process and its environment\<close>

datatype event =
    EvExists string
  | EvMakedirs string
  | EvZipOpen string
  | EvZipWrite string
  | EvZipClose "string list"
  | EvGetsize string
  | EvPrint string

text \<open>
  What the program reads and changes: the file system, the working directory, the clock,
  the lines printed to standard output, and the sequence of the library calls with an
  effect, in the order they were made. \<open>archive_bytes es fin\<close> is the size on disk of an
  archive file with the entries \<open>es\<close>, finalized or not: the container format is the
  library's, and the model takes its size function as given.
\<close>

record world =
  root :: node
  cwd :: "string list"
  clock :: datetime
  archive_bytes :: "(string \<times> nat) list \<Rightarrow> bool \<Rightarrow> nat"
  stdout :: "string list"
  trace :: "event list"

datatype error =
    OSError errno string
  | NameError string
  | TypeError string
  | ValueError string
  | IndexError string

definition log_event :: "event \<Rightarrow> world \<Rightarrow> world" where
  "log_event e w = w\<lparr>trace := trace w @ [e]\<rparr>"

text \<open>The names of a path string from the root, and the node a path string names.\<close>

definition namei :: "world \<Rightarrow> string \<Rightarrow> errno + string list" where
  "namei w p =
     (if p = [] then Inl ENOENT
      else resolve_from (root w) (if hd p = CHR ''/'' then [] else cwd w) (split_sep p))"

definition os_stat :: "world \<Rightarrow> string \<Rightarrow> errno + node" where
  "os_stat w p =
     (case namei w p of
        Inl e \<Rightarrow> Inl e
      | Inr cp \<Rightarrow> (case fs_lookup (root w) cp of None \<Rightarrow> Inl ENOENT | Some n \<Rightarrow> Inr n))"

text \<open>\<open>os.path.exists(p)\<close>: whether \<open>os.stat(p)\<close> succeeds.\<close>

definition os_path_exists :: "world \<Rightarrow> string \<Rightarrow> bool" where
  "os_path_exists w p = (case os_stat w p of Inl e \<Rightarrow> False | Inr n \<Rightarrow> True)"

text \<open>
  The size \<open>st_size\<close> of a node. For a directory it depends on the file system; the
  program never asks for it.
\<close>

definition node_size :: "world \<Rightarrow> node \<Rightarrow> nat" where
  "node_size w n =
     (case n of File sz rd wr \<Rightarrow> sz | Archive es fin \<Rightarrow> archive_bytes w es fin | Dir wr es \<Rightarrow> 4096)"

text \<open>\<open>os.path.getsize(p)\<close>.\<close>

definition os_path_getsize :: "world \<Rightarrow> string \<Rightarrow> error + nat" where
  "os_path_getsize w p =
     (case os_stat w p of Inl e \<Rightarrow> Inl (OSError e p) | Inr n \<Rightarrow> Inr (node_size w n))"

text \<open>
  \<open>os.makedirs(p)\<close> with \<open>exist_ok=False\<close>: the directories of the path are visited
  from the start, and each missing one is created in its parent. The flag \<open>made\<close> says
  whether the directory reached last was created by this call; the final \<open>mkdir\<close> of the
  library fails with \<open>FileExistsError\<close> when it was not.
\<close>

fun mkdirs_from :: "node \<Rightarrow> string list \<Rightarrow> bool \<Rightarrow> string list \<Rightarrow> (errno + unit) \<times> node" where
  "mkdirs_from r cur made [] = (if made then Inr () else Inl EEXIST, r)"
| "mkdirs_from r cur made (c # cs) =
     (case fs_lookup r cur of
        None \<Rightarrow> (Inl ENOENT, r)
      | Some (File sz rd wr) \<Rightarrow> (Inl ENOTDIR, r)
      | Some (Archive es fin) \<Rightarrow> (Inl ENOTDIR, r)
      | Some (Dir wr es) \<Rightarrow>
          if c = [] \<or> c = ''.'' then mkdirs_from r cur made cs
          else if c = ''..'' then mkdirs_from r (butlast cur) False cs
          else (case map_of es c of
                  None \<Rightarrow>
                    if wr then mkdirs_from (fs_put r (cur @ [c]) (Dir True [])) (cur @ [c]) True cs
                    else (Inl EACCES, r)
                | Some ch \<Rightarrow>
                    if is_dir ch then mkdirs_from r (cur @ [c]) False cs
                    else (Inl (if cs = [] then EEXIST else ENOTDIR), r)))"

definition os_makedirs :: "string \<Rightarrow> world \<Rightarrow> (error + unit) \<times> world" where
  "os_makedirs p w =
     (let w1 = log_event (EvMakedirs p) w in
      if p = [] then (Inl (OSError ENOENT p), w1)
      else (case mkdirs_from (root w1) (if hd p = CHR ''/'' then [] else cwd w1) False
                   (split_sep p) of
              (Inl e, r) \<Rightarrow> (Inl (OSError e p), w1\<lparr>root := r\<rparr>)
            | (Inr u, r) \<Rightarrow> (Inr (), w1\<lparr>root := r\<rparr>)))"

text \<open>
  \<open>os.walk(top)\<close> with its defaults (top-down, \<open>onerror=None\<close>, links not followed): for
  a directory, the triple of its path, the names of its sub-directories and the names of
  its other entries, followed by the walks of the sub-directories in order, each under
  \<open>os.path.join(top, name)\<close>. \<open>os.scandir\<close> fails on anything that is not a directory,
  and the walk swallows that error and yields nothing.
\<close>

fun walk_tree :: "string \<Rightarrow> node \<Rightarrow> (string \<times> string list \<times> string list) list" where
  "walk_tree tp (Dir wr es) =
     (tp, map fst (filter (\<lambda>e. is_dir (snd e)) es),
           map fst (filter (\<lambda>e. \<not> is_dir (snd e)) es)) #
     concat (map (\<lambda>e. walk_tree (os_path_join tp (fst e)) (snd e))
                 (filter (\<lambda>e. is_dir (snd e)) es))"
| "walk_tree tp n = []"

definition os_walk :: "world \<Rightarrow> string \<Rightarrow> (string \<times> string list \<times> string list) list" where
  "os_walk w tp = (case os_stat w tp of Inl e \<Rightarrow> [] | Inr n \<Rightarrow> walk_tree tp n)"

text \<open>
  \<open>zipfile.ZipFile(path, 'w')\<close>: the file is opened with mode \<open>w+b\<close>, which creates it or
  truncates it. The value returned stands for the object \<open>zip_obj\<close>: the place of its
  file in the tree.
\<close>

definition zipfile_open :: "string \<Rightarrow> world \<Rightarrow> (error + string list) \<times> world" where
  "zipfile_open p w =
     (let w1 = log_event (EvZipOpen p) w in
      case namei w1 p of
        Inl e \<Rightarrow> (Inl (OSError e p), w1)
      | Inr cp \<Rightarrow>
          (case fs_lookup (root w1) cp of
             Some (Dir wr es) \<Rightarrow> (Inl (OSError EISDIR p), w1)
           | Some (File sz rd wr) \<Rightarrow>
               if wr then (Inr cp, w1\<lparr>root := fs_put (root w1) cp (Archive [] False)\<rparr>)
               else (Inl (OSError EACCES p), w1)
           | Some (Archive es fin) \<Rightarrow>
               (Inr cp, w1\<lparr>root := fs_put (root w1) cp (Archive [] False)\<rparr>)
           | None \<Rightarrow>
               (case fs_lookup (root w1) (butlast cp) of
                  Some (Dir wr es) \<Rightarrow>
                    if wr then (Inr cp, w1\<lparr>root := fs_put (root w1) cp (Archive [] False)\<rparr>)
                    else (Inl (OSError EACCES p), w1)
                | Some n \<Rightarrow> (Inl (OSError ENOTDIR p), w1)
                | None \<Rightarrow> (Inl (OSError ENOENT p), w1))))"

text \<open>
  \<open>zip_obj.write(filename)\<close>: fails on a closed archive; then \<open>os.stat(filename)\<close>, the
  entry name, and for a directory an entry of that name with a slash and no bytes,
  for anything else \<open>open(filename, 'rb')\<close> and the copy of its bytes.
\<close>

definition zip_write :: "string list \<Rightarrow> string \<Rightarrow> world \<Rightarrow> (error + unit) \<times> world" where
  "zip_write zip_obj filename w =
     (let w1 = log_event (EvZipWrite filename) w in
      case fs_lookup (root w1) zip_obj of
        Some (Archive es False) \<Rightarrow>
          (case os_stat w1 filename of
             Inl e \<Rightarrow> (Inl (OSError e filename), w1)
           | Inr n \<Rightarrow>
               if arcname_of filename = [] then (Inl (IndexError filename), w1)
               else (case n of
                       Dir wr ds \<Rightarrow>
                         (Inr (), w1\<lparr>root := fs_put (root w1) zip_obj
                             (Archive (es @ [(arcname_of filename @ ''/'', 0)]) False)\<rparr>)
                     | File sz rd wr \<Rightarrow>
                         if rd then
                           (Inr (), w1\<lparr>root := fs_put (root w1) zip_obj
                               (Archive (es @ [(arcname_of filename, sz)]) False)\<rparr>)
                         else (Inl (OSError EACCES filename), w1)
                     | Archive zs fin \<Rightarrow>
                         (Inr (), w1\<lparr>root := fs_put (root w1) zip_obj
                             (Archive (es @ [(arcname_of filename, archive_bytes w1 zs fin)])
                                False)\<rparr>)))
      | _ \<Rightarrow> (Inl (ValueError ''Attempt to write to ZIP archive that was already closed''), w1))"

text \<open>\<open>zip_obj.close()\<close>: finalizes the archive; on a closed archive it does nothing.\<close>

definition zip_close :: "string list \<Rightarrow> world \<Rightarrow> (error + unit) \<times> world" where
  "zip_close zip_obj w =
     (let w1 = log_event (EvZipClose zip_obj) w in
      case fs_lookup (root w1) zip_obj of
        Some (Archive es False) \<Rightarrow> (Inr (), w1\<lparr>root := fs_put (root w1) zip_obj (Archive es True)\<rparr>)
      | _ \<Rightarrow> (Inr (), w1))"

text \<open>\<open>print(s)\<close>: one line on standard output.\<close>

definition print_line :: "string \<Rightarrow> world \<Rightarrow> world" where
  "print_line s w = log_event (EvPrint s) (w\<lparr>stdout := stdout w @ [s]\<rparr>)"

section \<open>The program\<close>

text \<open>
  The conversion \<open>{size:.2f}\<close> of the float \<open>a / b\<close>: the quotient rounded to the
  nearest hundredth, a tie going to the even one (the conversion rounds the exact value
  of the float), printed with its integer part and two decimals. The float \<open>a / b\<close> is
  the exact quotient when \<open>b\<close> is a power of two and \<open>a\<close> is below \<open>2 ^ 53\<close>, which is
  where the model is used.
\<close>

definition round_half_even :: "nat \<Rightarrow> nat \<Rightarrow> nat" where
  "round_half_even a b =
     (let q = a div b; r = a mod b
      in if b < 2 * r \<or> (2 * r = b \<and> odd q) then q + 1 else q)"

definition format_2f :: "nat \<Rightarrow> nat \<Rightarrow> string" where
  "format_2f a b =
     (let h = round_half_even (100 * a) b in str_nat (h div 100) @ ''.'' @ pad2 (h mod 100))"

text \<open>\<open>print_finish_message(sources, destination, zip_filepath)\<close>.\<close>

definition finish_message :: "nat \<Rightarrow> string \<Rightarrow> string \<Rightarrow> string" where
  "finish_message num_sources destination size_2f =
     ''The backup of '' @ str_nat num_sources @
     '' sources has been completed and saved to '' @ destination @
     '' (size: '' @ size_2f @ '' MB).''"

definition print_finish_message ::
  "string list \<Rightarrow> string \<Rightarrow> string \<Rightarrow> world \<Rightarrow> (error + unit) \<times> world" where
  "print_finish_message sources destination zip_filepath w =
     (let num_sources = length sources;
          w1 = log_event (EvGetsize zip_filepath) w
      in case os_path_getsize w1 zip_filepath of
           Inl e \<Rightarrow> (Inl e, w1)
         | Inr bytes \<Rightarrow>
             (Inr (), print_line
                (finish_message num_sources destination (format_2f bytes (1024 * 1024))) w1))"

text \<open>
  \<open>create_zip_file(zip_filepath, sources)\<close>. The three nested loops, innermost first: the
  files of one directory of the walk, the directories of one walk, the sources. An
  exception leaves the loops at once.
\<close>

fun write_files :: "string list \<Rightarrow> string \<Rightarrow> string list \<Rightarrow> world \<Rightarrow> (error + unit) \<times> world" where
  "write_files zip_obj root_dir [] w = (Inr (), w)"
| "write_files zip_obj root_dir (file # files) w =
     (let file_path = os_path_join root_dir file
      in case zip_write zip_obj file_path w of
           (Inl e, w') \<Rightarrow> (Inl e, w')
         | (Inr u, w') \<Rightarrow> write_files zip_obj root_dir files w')"

fun walk_loop ::
  "string list \<Rightarrow> (string \<times> string list \<times> string list) list \<Rightarrow> world \<Rightarrow> (error + unit) \<times> world" where
  "walk_loop zip_obj [] w = (Inr (), w)"
| "walk_loop zip_obj ((root_dir, dirs, files) # rest) w =
     (case write_files zip_obj root_dir files w of
        (Inl e, w') \<Rightarrow> (Inl e, w')
      | (Inr u, w') \<Rightarrow> walk_loop zip_obj rest w')"

fun source_loop :: "string list \<Rightarrow> string list \<Rightarrow> world \<Rightarrow> (error + unit) \<times> world" where
  "source_loop zip_obj [] w = (Inr (), w)"
| "source_loop zip_obj (source # sources) w =
     (case walk_loop zip_obj (os_walk w source) w of
        (Inl e, w') \<Rightarrow> (Inl e, w')
      | (Inr u, w') \<Rightarrow> source_loop zip_obj sources w')"

definition create_zip_file :: "string \<Rightarrow> string list \<Rightarrow> world \<Rightarrow> (error + unit) \<times> world" where
  "create_zip_file zip_filepath sources w =
     (case zipfile_open zip_filepath w of
        (Inl e, w1) \<Rightarrow> (Inl e, w1)
      | (Inr zip_obj, w1) \<Rightarrow>
          (case source_loop zip_obj sources w1 of
             (Inl e, w2) \<Rightarrow> (Inl e, w2)
           | (Inr u, w2) \<Rightarrow> zip_close zip_obj w2))"

text \<open>\<open>zipources(sources, destination, name)\<close>.\<close>

definition zipources ::
  "string list \<Rightarrow> string \<Rightarrow> string option \<Rightarrow> world \<Rightarrow> (error + unit) \<times> world" where
  "zipources sources destination name w =
     (let current_time = get_current_time (clock w);
          zip_filepath = create_zip_filepath current_time destination name
      in case create_zip_file zip_filepath sources w of
           (Inl e, w1) \<Rightarrow> (Inl e, w1)
         | (Inr u, w1) \<Rightarrow> print_finish_message sources destination zip_filepath w1)"

text \<open>
  The names bound at module level when \<open>main\<close> runs: the four imported modules and the
  seven functions. A call through a global name is resolved at the time of the call, in
  this table (none of the names \<open>main\<close> uses is a builtin). Only the function that takes
  \<open>sources\<close>, \<open>destination\<close> and \<open>name\<close> is kept as a callable value; the other objects
  are opaque here.
\<close>

datatype pyobject =
    Callable "string list \<Rightarrow> string \<Rightarrow> string option \<Rightarrow> world \<Rightarrow> (error + unit) \<times> world"
  | Opaque

definition module_globals :: "(string \<times> pyobject) list" where
  "module_globals =
     [(''argparse'', Opaque), (''os'', Opaque), (''zipfile'', Opaque), (''datetime'', Opaque),
      (''parse_args'', Opaque), (''get_current_time'', Opaque),
      (''create_zip_filepath'', Opaque), (''create_zip_file'', Opaque),
      (''print_finish_message'', Opaque), (''zipources'', Callable zipources),
      (''main'', Opaque)]"

text \<open>
  The namespace \<open>parse_args()\<close> returns: one or more sources, the destination, and the
  name when \<open>--name\<close> was given.
\<close>

record namespace =
  arg_source :: "string list"
  arg_destination :: string
  arg_name :: "string option"

text \<open>
  \<open>main()\<close>, from the parsed arguments on. Its last statement calls the global name
  \<open>zip_sources\<close>.
\<close>

definition main :: "namespace \<Rightarrow> world \<Rightarrow> (error + unit) \<times> world" where
  "main args w =
     (let sources = arg_source args;
          destination = arg_destination args;
          name = arg_name args;
          w1 = log_event (EvExists destination) w
      in case (if \<not> os_path_exists w1 destination then os_makedirs destination w1
               else (Inr (), w1)) of
           (Inl e, w2) \<Rightarrow> (Inl e, w2)
         | (Inr u, w2) \<Rightarrow>
             (case map_of module_globals ''zip_sources'' of
                None \<Rightarrow> (Inl (NameError ''zip_sources''), w2)
              | Some Opaque \<Rightarrow> (Inl (TypeError ''zip_sources''), w2)
              | Some (Callable f) \<Rightarrow> f sources destination name w2))"

text \<open>
  The exit status of the process: 0 when \<open>main\<close> returns, 1 when an exception leaves it.
\<close>

definition exit_status :: "(error + unit) \<times> world \<Rightarrow> nat" where
  "exit_status res = (case fst res of Inl e \<Rightarrow> 1 | Inr u \<Rightarrow> 0)"

section \<open>Notions used in the statements\<close>

text \<open>Whether a list of names from a node leads to a directory.\<close>

definition dir_at :: "node \<Rightarrow> string list \<Rightarrow> bool" where
  "dir_at r q = (case fs_lookup r q of None \<Rightarrow> False | Some d \<Rightarrow> is_dir d)"

text \<open>
  An instance of the size function: the layout of an archive whose entries are stored
  without compression and without extra fields. Each entry has a local header of 30
  bytes, its name and its bytes; finalizing adds a central record of 46 bytes and the
  name for each entry, and an end record of 22 bytes.
\<close>

definition stored_archive_bytes :: "(string \<times> nat) list \<Rightarrow> bool \<Rightarrow> nat" where
  "stored_archive_bytes es fin =
     sum_list (map (\<lambda>e. 30 + length (fst e) + snd e) es) +
     (if fin then sum_list (map (\<lambda>e. 46 + length (fst e)) es) + 22 else 0)"

text \<open>
  A small world: the working directory \<open>/work\<close> holds the file \<open>a.txt\<close>, the directory
  \<open>subdir\<close> with the file \<open>b.txt\<close>, the empty directory \<open>empty\<close>, the directory
  \<open>locked\<close> with a file the process may not read, and the directory \<open>out\<close>.
\<close>

definition example_clock :: datetime where
  "example_clock = \<lparr>year = 2024, month = 3, day = 7, hour = 9, minute = 5, second = 0\<rparr>"

definition example_root :: node where
  "example_root =
     Dir True [(''work'', Dir True
       [(''a.txt'', File 5 True True),
        (''subdir'', Dir True [(''b.txt'', File 1 True True)]),
        (''empty'', Dir True []),
        (''locked'', Dir True [(''ok.txt'', File 2 True True), (''secret.txt'', File 7 False False)]),
        (''out'', Dir True [])])]"

definition example_world :: world where
  "example_world =
     \<lparr>root = example_root, cwd = [''work''], clock = example_clock,
      archive_bytes = stored_archive_bytes, stdout = [], trace = []\<rparr>"

definition example_args :: namespace where
  "example_args =
     \<lparr>arg_source = [''a.txt'', ''subdir/''], arg_destination = ''out'',
      arg_name = Some ''mybackup''\<rparr>"

text \<open>
  "Rounded to two decimals", as the specification words the printed size: the number
  of hundredths \<open>h\<close> is within half a hundredth of the quotient \<open>a / b\<close>.
\<close>

definition rounded_to_two_decimals :: "nat \<Rightarrow> nat \<Rightarrow> nat \<Rightarrow> bool" where
  "rounded_to_two_decimals h a b \<longleftrightarrow> 2 * \<bar>int h * int b - 100 * int a\<bar> \<le> int b"

text \<open>
  Two trees with the same shape: the same lists of names lead to a node, and the same
  ones to a directory.
\<close>

definition same_shape :: "node \<Rightarrow> node \<Rightarrow> bool" where
  "same_shape r r' \<longleftrightarrow>
     (\<forall>q. dir_at r' q = dir_at r q) \<and> (\<forall>q. (fs_lookup r' q = None) = (fs_lookup r q = None))"

text \<open>\<open>os.path.isdir(p)\<close>.\<close>

definition os_path_isdir :: "world \<Rightarrow> string \<Rightarrow> bool" where
  "os_path_isdir w p = (case os_stat w p of Inl e \<Rightarrow> False | Inr n \<Rightarrow> is_dir n)"

text \<open>
  The paths the loops of \<open>create_zip_file\<close> hand to \<open>zip_obj.write\<close>: for each source, for
  each triple of its walk, the join of the triple's directory with each of its file names.
\<close>

definition triple_paths :: "string \<times> string list \<times> string list \<Rightarrow> string list" where
  "triple_paths t = map (os_path_join (fst t)) (snd (snd t))"

definition walked_paths :: "world \<Rightarrow> string list \<Rightarrow> string list" where
  "walked_paths w sources = concat (map (\<lambda>s. concat (map triple_paths (os_walk w s))) sources)"

text \<open>Two worlds with the same files, working directory and archive sizes.\<close>

definition same_files :: "world \<Rightarrow> world \<Rightarrow> bool" where
  "same_files w v \<longleftrightarrow> root w = root v \<and> cwd w = cwd v \<and> archive_bytes w = archive_bytes v"

text \<open>The archive of \<open>zip_obj\<close> is open for writing: it is there and not finalized.\<close>

definition archive_open :: "world \<Rightarrow> string list \<Rightarrow> bool" where
  "archive_open w h = (case fs_lookup (root w) h of Some (Archive es False) \<Rightarrow> True | _ \<Rightarrow> False)"

text \<open>The entries of the archive at a place of the tree.\<close>

definition archive_entries :: "world \<Rightarrow> string list \<Rightarrow> (string \<times> nat) list" where
  "archive_entries w h = (case fs_lookup (root w) h of Some (Archive es fin) \<Rightarrow> es | _ \<Rightarrow> [])"

text \<open>
  The name \<open>zip_obj.write(p)\<close> gives the entry of the path \<open>p\<close>: for a directory the
  library appends a slash.
\<close>

definition entry_name :: "world \<Rightarrow> string \<Rightarrow> string" where
  "entry_name w p = (if os_path_isdir w p then arcname_of p @ ''/'' else arcname_of p)"

text \<open>
  From the world \<open>w\<close> to the world \<open>w'\<close>, the paths \<open>ps\<close> were written into the open
  archive of \<open>zip_obj\<close>, in this order, and nothing else happened: the archive gained one
  entry for each path, under the name the library gives it.
\<close>

definition written :: "string list \<Rightarrow> world \<Rightarrow> string list \<Rightarrow> world \<Rightarrow> bool" where
  "written h w ps w' \<longleftrightarrow>
     (\<exists>es es'. fs_lookup (root w) h = Some (Archive es False) \<and>
        root w' = fs_put (root w) h (Archive (es @ es') False) \<and>
        map fst es' = map (entry_name w) ps \<and>
        cwd w' = cwd w \<and> clock w' = clock w \<and> archive_bytes w' = archive_bytes w \<and>
        stdout w' = stdout w \<and> trace w' = trace w @ map EvZipWrite ps)"

text \<open>
  What a loop of the archive writer, meant to write the paths \<open>ps\<close>, may end with: all
  of them written, or some paths written and then a write that raised, whose exception
  and world are the result.
\<close>

definition loop_outcome ::
  "string list \<Rightarrow> world \<Rightarrow> string list \<Rightarrow> (error + unit) \<times> world \<Rightarrow> bool" where
  "loop_outcome h w ps res =
     (case res of
        (Inr u, w') \<Rightarrow> written h w ps w'
      | (Inl e, w') \<Rightarrow> \<exists>qs p v. written h w qs v \<and> zip_write h p v = (Inl e, w'))"

text \<open>The small world after the archive \<open>out/b.zip\<close> was opened in it.\<close>

definition example_opened :: world where
  "example_opened = snd (zipfile_open ''out/b.zip'' example_world)"


section \<open>Naming of the archive\<close>

lemma matches_append_lits: "matches (map Lit u @ ps) (u @ s) = matches ps s"
  by (induction u) auto

lemma is_digit_digit_char: "d < 10 \<Longrightarrow> is_digit (digit_char d)"
  unfolding is_digit_def digit_char_def by (rule nth_mem) simp

lemma pad2_two_digits:
  assumes "n < 100"
  shows "\<exists>a b. pad2 n = [a, b] \<and> is_digit a \<and> is_digit b"
proof (cases "n < 10")
  case True
  then have "pad2 n = [CHR ''0'', digit_char n]"
    by (simp add: pad2_def str_nat.simps)
  moreover have "is_digit CHR ''0''"
    by (simp add: is_digit_def)
  ultimately show ?thesis
    using True by (simp add: is_digit_digit_char)
next
  case False
  from assms have d: "n div 10 < 10"
    by simp
  have "str_nat n = str_nat (n div 10) @ [digit_char (n mod 10)]"
    using False by (subst str_nat.simps) simp
  also have "str_nat (n div 10) = [digit_char (n div 10)]"
    using d by (subst str_nat.simps) simp
  finally have "pad2 n = [digit_char (n div 10), digit_char (n mod 10)]"
    using False by (simp add: pad2_def)
  then show ?thesis
    using d by (simp add: is_digit_digit_char)
qed

lemma matches_two_digits:
  assumes "n < 100"
  shows "matches (two_digits @ ps) (pad2 n @ s) = matches ps s"
proof -
  from pad2_two_digits [OF assms] obtain a b
    where "pad2 n = [a, b]" "is_digit a" "is_digit b"
    by blast
  then show ?thesis
    by (simp add: two_digits_def)
qed

lemma matches_lit: "matches (Lit c # ps) (c # s) = matches ps s"
  by simp

lemma default_name_matches:
  assumes "valid_datetime t"
  shows "matches default_name_pattern (''backup_'' @ get_current_time t @ ''.zip'')"
proof -
  from assms have b: "day t < 100" "month t < 100" "year t mod 100 < 100"
    "hour t < 100" "minute t < 100" "second t < 100"
    by (simp_all add: valid_datetime_def)
  show ?thesis
    by (simp add: default_name_pattern_def get_current_time_def strftime_backup_def
        matches_two_digits b)
qed

text \<open>
  C4. Without a name the archive path is the destination, a slash, \<open>backup_\<close>, the
  timestamp and \<open>.zip\<close>; with a name it is the destination, a slash, the name and
  \<open>.zip\<close>; and the default file name, built from the clock's timestamp, matches
  \<^verbatim>\<open>backup_\d{2}-\d{2}-\d{2}_\d{2}-\d{2}-\d{2}\.zip\<close>.
\<close>

theorem C4_archive_path:
  "create_zip_filepath t d None = d @ ''/'' @ ''backup_'' @ t @ ''.zip'' \<and>
   create_zip_filepath t d (Some n) = d @ ''/'' @ n @ ''.zip'' \<and>
   (valid_datetime now \<longrightarrow>
      matches default_name_pattern (''backup_'' @ get_current_time now @ ''.zip'') \<and>
      create_zip_filepath (get_current_time now) d None =
        d @ ''/'' @ (''backup_'' @ get_current_time now @ ''.zip''))"
  using default_name_matches [of now] by (simp add: create_zip_filepath_def)

theorem C4_archive_path_witness:
  "valid_datetime \<lparr>year = 2024, month = 3, day = 7, hour = 9, minute = 5, second = 0\<rparr> \<and>
   matches default_name_pattern ''backup_07-03-24_09-05-00.zip'' \<and>
   create_zip_filepath
     (get_current_time \<lparr>year = 2024, month = 3, day = 7, hour = 9, minute = 5, second = 0\<rparr>)
     ''out'' None = ''out/backup_07-03-24_09-05-00.zip''"
  using C4_archive_path [of "''t''" "''out''" "''n''"
      "\<lparr>year = 2024, month = 3, day = 7, hour = 9, minute = 5, second = 0\<rparr>"]
  by (simp add: valid_datetime_def get_current_time_def strftime_backup_def pad2_def
      str_nat.simps digit_char_def)
section \<open>Evaluation of the library model\<close>

lemmas example_defs = example_world_def example_root_def example_args_def example_clock_def

lemmas library_defs = os_path_exists_def os_stat_def namei_def path_step_def log_event_def
  os_makedirs_def zipfile_open_def zip_write_def zip_close_def os_walk_def os_path_join_def
  arcname_of_def normpath_def initial_slashes_def print_line_def os_path_getsize_def
  node_size_def Let_def

lemmas message_defs = print_finish_message_def finish_message_def format_2f_def
  round_half_even_def pad2_def str_nat.simps digit_char_def stored_archive_bytes_def

lemma log_event_fields [simp]:
  "root (log_event e w) = root w" "cwd (log_event e w) = cwd w"
  "clock (log_event e w) = clock w" "archive_bytes (log_event e w) = archive_bytes w"
  "stdout (log_event e w) = stdout w" "trace (log_event e w) = trace w @ [e]"
  by (simp_all add: log_event_def)

lemma namei_log_event [simp]: "namei (log_event e w) p = namei w p"
  by (simp add: namei_def)

lemma os_stat_log_event [simp]: "os_stat (log_event e w) p = os_stat w p"
  by (simp add: os_stat_def cong: sum.case_cong)

lemma os_path_exists_log_event [simp]: "os_path_exists (log_event e w) p = os_path_exists w p"
  by (simp add: os_path_exists_def)

lemma os_walk_log_event [simp]: "os_walk (log_event e w) p = os_walk w p"
  by (simp add: os_walk_def)

section \<open>The entry point\<close>

lemma zip_sources_unbound: "map_of module_globals ''zip_sources'' = None"
  by (simp add: module_globals_def)

lemma main_never_returns: "fst (main args w) \<noteq> Inr u"
  by (simp add: main_def Let_def zip_sources_unbound split: prod.splits sum.splits)

lemma os_makedirs_stdout: "stdout (snd (os_makedirs p w)) = stdout w"
  by (simp add: os_makedirs_def Let_def log_event_def split: prod.splits sum.splits)

lemma main_prints_nothing: "stdout (snd (main args w)) = stdout w"
proof -
  have "stdout (snd (os_makedirs (arg_destination args)
          (log_event (EvExists (arg_destination args)) w))) = stdout w"
    by (simp add: os_makedirs_stdout)
  then show ?thesis
    by (auto simp: main_def Let_def zip_sources_unbound log_event_def
        split: prod.splits sum.splits)
qed

text \<open>
  C1. The claim: an invocation with valid arguments prints the summary line and exits
  with status 0. The code at such an invocation (sources \<open>a.txt\<close> and \<open>subdir/\<close>, which
  exist, the existing writable destination \<open>out\<close>, the name \<open>mybackup\<close>): \<open>main\<close> ends
  with the exception \<open>NameError\<close> for the global name \<open>zip_sources\<close>, which the module
  never binds; nothing is printed and the exit status is 1.
\<close>

theorem C1_main_raises_name_error:
  "os_path_exists example_world ''a.txt'' \<and> os_path_exists example_world ''subdir/'' \<and>
   os_stat example_world ''out'' = Inr (Dir True []) \<and>
   fst (main example_args example_world) = Inl (NameError ''zip_sources'') \<and>
   stdout (snd (main example_args example_world)) = [] \<and>
   exit_status (main example_args example_world) = 1"
  by (simp add: main_def exit_status_def zip_sources_unbound example_defs library_defs)

section \<open>What the walk of a source yields\<close>

lemma os_walk_of_non_directory:
  assumes "os_stat w p = Inr n" and "\<not> is_dir n"
  shows "os_walk w p = []"
  using assms by (cases n) (simp_all add: os_walk_def)

text \<open>
  C3. The claim: a source that is a regular file is emitted by the walk as that single
  file, so the sources \<open>a.txt\<close> and \<open>subdir/\<close> (with \<open>b.txt\<close> in it) give an archive of 2
  entries. The code at that input: \<open>a.txt\<close> is a regular file, its walk yields nothing,
  and the archive written holds the one entry \<open>subdir/b.txt\<close>.
\<close>

theorem C3_file_source_is_not_archived:
  "os_stat example_world ''a.txt'' = Inr (File 5 True True) \<and>
   os_walk example_world ''a.txt'' = [] \<and>
   fst (create_zip_file ''out/mybackup.zip'' [''a.txt'', ''subdir/''] example_world) = Inr () \<and>
   os_stat (snd (create_zip_file ''out/mybackup.zip'' [''a.txt'', ''subdir/''] example_world))
     ''out/mybackup.zip'' = Inr (Archive [(''subdir/b.txt'', 1)] True)"
  by (simp add: create_zip_file_def example_defs library_defs)

section \<open>The summary\<close>

lemma round_half_even_nearest:
  assumes "0 < b"
  shows "2 * \<bar>int (round_half_even a b) * int b - int a\<bar> \<le> int b"
proof -
  define q where "q = a div b"
  define r where "r = a mod b"
  have a: "int a = int q * int b + int r"
    unfolding q_def r_def by (metis div_mult_mod_eq of_nat_add of_nat_mult)
  have r: "r < b"
    unfolding r_def using assms by simp
  show ?thesis
  proof (cases "b < 2 * r \<or> (2 * r = b \<and> odd q)")
    case True
    then have "round_half_even a b = q + 1"
      by (simp add: round_half_even_def q_def r_def Let_def)
    then have "int (round_half_even a b) * int b - int a = int b - int r"
      by (simp add: a algebra_simps)
    with True r show ?thesis
      by auto
  next
    case False
    then have "round_half_even a b = q"
      by (simp add: round_half_even_def q_def r_def Let_def)
    then have "int (round_half_even a b) * int b - int a = - int r"
      by (simp add: a)
    with False show ?thesis
      by auto
  qed
qed

lemma length_pad2: "n < 100 \<Longrightarrow> length (pad2 n) = 2"
  using pad2_two_digits [of n] by auto

lemma os_path_getsize_log_event: "os_path_getsize (log_event e w) p = os_path_getsize w p"
  by (simp add: os_path_getsize_def node_size_def cong: sum.case_cong node.case_cong)

text \<open>
  C5. When the archive path names a file of \<open>bytes\<close> bytes (below \<open>2 ^ 53\<close>, where the
  float division is exact), the summary step prints exactly one line,
  \<open>The backup of N sources has been completed and saved to D (size: X.XX MB).\<close>, where
  \<open>N\<close> is the length of the sources list, \<open>D\<close> the destination, and \<open>X.XX\<close> the decimal
  notation, with two decimals, of \<open>bytes / (1024 * 1024)\<close> rounded to two decimals.
\<close>

theorem C5_summary_line:
  assumes "os_path_getsize w zip_filepath = Inr bytes" and "bytes < 2 ^ 53"
  shows "\<exists>h w'. print_finish_message sources destination zip_filepath w = (Inr (), w') \<and>
           stdout w' = stdout w @
             [''The backup of '' @ str_nat (length sources) @
              '' sources has been completed and saved to '' @ destination @
              '' (size: '' @ str_nat (h div 100) @ ''.'' @ pad2 (h mod 100) @ '' MB).''] \<and>
           length (pad2 (h mod 100)) = 2 \<and>
           rounded_to_two_decimals h bytes (1024 * 1024)"
proof -
  define h where "h = round_half_even (100 * bytes) (1024 * 1024)"
  have "rounded_to_two_decimals h bytes (1024 * 1024)"
    using round_half_even_nearest [of "1024 * 1024" "100 * bytes"]
    by (simp add: rounded_to_two_decimals_def h_def)
  moreover have "length (pad2 (h mod 100)) = 2"
    by (simp add: length_pad2)
  moreover have "print_finish_message sources destination zip_filepath w =
      (Inr (), print_line (finish_message (length sources) destination
          (str_nat (h div 100) @ ''.'' @ pad2 (h mod 100)))
        (log_event (EvGetsize zip_filepath) w))"
    using assms(1)
    by (simp add: print_finish_message_def os_path_getsize_log_event format_2f_def h_def Let_def)
  moreover have "stdout (print_line (finish_message (length sources) destination
          (str_nat (h div 100) @ ''.'' @ pad2 (h mod 100)))
        (log_event (EvGetsize zip_filepath) w)) =
      stdout w @ [''The backup of '' @ str_nat (length sources) @
              '' sources has been completed and saved to '' @ destination @
              '' (size: '' @ str_nat (h div 100) @ ''.'' @ pad2 (h mod 100) @ '' MB).'']"
    by (simp add: print_line_def finish_message_def)
  ultimately show ?thesis
    by blast
qed

theorem C5_summary_line_witness:
  "os_path_getsize
     (snd (create_zip_file ''out/mybackup.zip'' [''a.txt'', ''subdir/''] example_world))
     ''out/mybackup.zip'' = Inr 123 \<and> (123::nat) < 2 ^ 53 \<and>
   stdout (snd (print_finish_message [''a.txt'', ''subdir/''] ''out'' ''out/mybackup.zip''
     (snd (create_zip_file ''out/mybackup.zip'' [''a.txt'', ''subdir/''] example_world)))) =
     [''The backup of 2 sources has been completed and saved to out (size: 0.00 MB).'']"
proof -
  have g: "os_path_getsize
     (snd (create_zip_file ''out/mybackup.zip'' [''a.txt'', ''subdir/''] example_world))
     ''out/mybackup.zip'' = Inr 123"
    by (simp add: create_zip_file_def example_defs library_defs stored_archive_bytes_def)
  have b: "(123::nat) < 2 ^ 53"
    by simp
  from C5_summary_line [OF g b, of "[''a.txt'', ''subdir/'']" "''out''"]
  have "\<exists>w'. print_finish_message [''a.txt'', ''subdir/''] ''out'' ''out/mybackup.zip''
       (snd (create_zip_file ''out/mybackup.zip'' [''a.txt'', ''subdir/''] example_world)) =
       (Inr (), w')"
    by blast
  then show ?thesis
    using g by (auto simp add: create_zip_file_def example_defs library_defs message_defs)
qed

section \<open>Looking up and storing nodes\<close>

lemma is_dir_iff: "is_dir n \<longleftrightarrow> (\<exists>wr es. n = Dir wr es)"
  by (cases n) auto

lemma dir_at_Nil [simp]: "dir_at r [] = is_dir r"
  by (simp add: dir_at_def)

lemma dir_at_Cons:
  "dir_at r (c # cs) \<longleftrightarrow> (\<exists>wr es ch. r = Dir wr es \<and> map_of es c = Some ch \<and> dir_at ch cs)"
  by (cases r) (auto simp: dir_at_def split: option.splits)

lemma fs_lookup_append:
  "fs_lookup r (p @ q) = (case fs_lookup r p of None \<Rightarrow> None | Some d \<Rightarrow> fs_lookup d q)"
proof (induction p arbitrary: r)
  case Nil
  show ?case by simp
next
  case (Cons c p)
  show ?case
    by (cases r) (simp_all add: Cons.IH split: option.splits)
qed

lemma fs_lookup_non_dir: "\<not> is_dir n \<Longrightarrow> q \<noteq> [] \<Longrightarrow> fs_lookup n q = None"
  by (cases n; cases q) simp_all

lemma fs_lookup_below_non_dir:
  assumes "fs_lookup r p = Some a" and "\<not> is_dir a" and "q \<noteq> []"
  shows "fs_lookup r (p @ q) = None"
  using assms by (cases q; cases a) (simp_all add: fs_lookup_append)

lemma fs_lookup_parent:
  assumes "fs_lookup r p = Some x" and "p \<noteq> []"
  shows "dir_at r (butlast p)"
proof -
  from assms(2) have p: "p = butlast p @ [last p]"
    by simp
  from assms(1) have "fs_lookup r (butlast p @ [last p]) = Some x"
    using p by simp
  then obtain d where d: "fs_lookup r (butlast p) = Some d" "fs_lookup d [last p] = Some x"
    by (auto simp: fs_lookup_append split: option.splits)
  from d(2) have "is_dir d"
    by (cases d) simp_all
  with d(1) show ?thesis
    by (simp add: dir_at_def)
qed

lemma is_dir_fs_put_Cons: "is_dir (fs_put d (c # cs) n) = is_dir d"
  by (cases d) (simp_all split: option.splits)

text \<open>
  The node found at \<open>q\<close> after a node was stored at \<open>p\<close>, whose parent is a directory:
  below \<open>p\<close> it comes from the new node, above \<open>p\<close> it is the old directory with the new
  node stored in it, and elsewhere it is the old node.
\<close>

lemma fs_lookup_put:
  assumes "dir_at r (butlast p)" "p \<noteq> []"
  shows "fs_lookup (fs_put r p n) q =
     (if prefix p q then fs_lookup n (drop (length p) q)
      else if prefix q p then map_option (\<lambda>d. fs_put d (drop (length q) p) n) (fs_lookup r q)
      else fs_lookup r q)"
  using assms
proof (induction q arbitrary: r p)
  case Nil
  then show ?case by simp
next
  case (Cons c qs)
  note IH = Cons.IH and prems = Cons.prems
  from prems obtain d ps where p: "p = d # ps"
    by (cases p) auto
  from prems p obtain wr es where r: "r = Dir wr es"
    by (cases ps) (auto simp: dir_at_Cons is_dir_iff)
  show ?case
  proof (cases "map_of es d")
    case None
    with prems p r have ps: "ps = []"
      by (cases ps) (auto simp: dir_at_Cons)
    show ?thesis
      using None by (simp add: p r ps update_conv')
  next
    case (Some ch)
    show ?thesis
    proof (cases ps)
      case Nil
      then show ?thesis
        using Some by (simp add: p r update_conv')
    next
      case (Cons e ps')
      with prems p r Some have "dir_at ch (butlast ps)"
        by (simp add: dir_at_Cons)
      with IH [of ch ps] Cons show ?thesis
        using Some by (simp add: p r update_conv')
    qed
  qed
qed

lemma fs_lookup_put_same:
  assumes "p = [] \<or> dir_at r (butlast p)"
  shows "fs_lookup (fs_put r p n) p = Some n"
proof (cases "p = []")
  case True
  then show ?thesis by simp
next
  case False
  with assms show ?thesis
    by (simp add: fs_lookup_put)
qed

text \<open>
  Replacing a node that is not a directory, or creating one where there was none, by a
  node that is not a directory: the directories of the tree stay what they were.
\<close>

lemma dir_at_put_non_dir:
  assumes "p = [] \<or> dir_at r (butlast p)" and "\<not> dir_at r p" and "\<not> is_dir n"
  shows "dir_at (fs_put r p n) q = dir_at r q"
proof (cases "p = []")
  case True
  with assms show ?thesis
    by (cases q; cases r; cases n) (simp_all add: dir_at_def)
next
  case False
  with assms have par: "dir_at r (butlast p)"
    by simp
  show ?thesis
  proof (cases "prefix p q")
    case True
    then obtain s where q: "q = p @ s"
      by (auto simp: prefix_def)
    have "\<not> dir_at r (p @ s)"
      using assms(2) by (cases s) (auto simp: dir_at_def fs_lookup_append fs_lookup_non_dir
          split: option.splits)
    moreover have "\<not> dir_at (fs_put r p n) (p @ s)"
      using assms(3) fs_lookup_put [OF par False, of n "p @ s"]
      by (cases s; cases n) (simp_all add: dir_at_def)
    ultimately show ?thesis
      by (simp add: q)
  next
    case np: False
    show ?thesis
    proof (cases "prefix q p")
      case True
      with np obtain c s where p: "p = q @ c # s"
        by (metis append_Nil2 neq_Nil_conv prefix_def)
      then show ?thesis
        using fs_lookup_put [OF par False, of n q] np True
        by (auto simp: dir_at_def is_dir_fs_put_Cons split: option.splits)
    next
      case False
      with np show ?thesis
        using fs_lookup_put [OF par \<open>p \<noteq> []\<close>, of n q] by (simp add: dir_at_def)
    qed
  qed
qed

lemma fs_lookup_put_elsewhere:
  assumes "p = [] \<or> dir_at r (butlast p)" and "\<not> dir_at r p" and "\<not> is_dir n"
    and "\<not> prefix q p"
  shows "fs_lookup (fs_put r p n) q = (if q = p then Some n else fs_lookup r q)"
proof (cases "p = []")
  case True
  with assms show ?thesis
    by (simp add: fs_lookup_non_dir)
next
  case False
  with assms have par: "dir_at r (butlast p)"
    by simp
  show ?thesis
  proof (cases "prefix p q")
    case True
    then obtain s where q: "q = p @ s"
      by (auto simp: prefix_def)
    with assms(4) have s: "s \<noteq> []"
      by auto
    have "fs_lookup r (p @ s) = None"
      using assms(2) s by (auto simp: dir_at_def fs_lookup_append fs_lookup_non_dir
          split: option.splits)
    moreover have "fs_lookup (fs_put r p n) (p @ s) = None"
      using assms(3) s fs_lookup_put [OF par False, of n "p @ s"]
      by (cases s; cases n) simp_all
    ultimately show ?thesis
      using s by (simp add: q)
  next
    case False
    with assms(4) show ?thesis
      using fs_lookup_put [OF par \<open>p \<noteq> []\<close>, of n q] by auto
  qed
qed

lemma fs_put_put: "fs_put (fs_put r p a) p b = fs_put r p b"
proof (induction p arbitrary: r)
  case Nil
  show ?case by simp
next
  case (Cons c cs)
  show ?case
  proof (cases r)
    case (Dir wr es)
    then show ?thesis
      by (cases "map_of es c") (simp_all add: update_conv' Cons.IH)
  qed simp_all
qed

lemma fs_lookup_None_put_replace:
  assumes "fs_lookup r p = Some a" and "\<not> is_dir a" and "\<not> is_dir n"
  shows "(fs_lookup (fs_put r p n) q = None) = (fs_lookup r q = None)"
proof -
  have par: "p = [] \<or> dir_at r (butlast p)"
    using assms(1) fs_lookup_parent by blast
  have nd: "\<not> dir_at r p"
    using assms(1,2) by (simp add: dir_at_def)
  show ?thesis
  proof (cases "prefix q p \<and> q \<noteq> p")
    case True
    then obtain c s where p: "p = q @ c # s"
      by (metis append_Nil2 neq_Nil_conv prefix_def)
    with assms(1) obtain d where "fs_lookup r q = Some d" "fs_lookup d (c # s) = Some a"
      by (auto simp: fs_lookup_append split: option.splits)
    then have dq: "dir_at r q"
      using fs_lookup_non_dir [of d "c # s"] by (auto simp: dir_at_def)
    moreover from dq have "dir_at (fs_put r p n) q"
      using dir_at_put_non_dir [OF par nd assms(3)] by simp
    ultimately show ?thesis
      by (auto simp: dir_at_def split: option.splits)
  next
    case False
    show ?thesis
    proof (cases "q = p")
      case True
      then show ?thesis
        using assms(1) fs_lookup_put_same [OF par] by simp
    next
      case qp: False
      with False have "\<not> prefix q p"
        by simp
      from fs_lookup_put_elsewhere [OF par nd assms(3) this] qp show ?thesis
        by simp
    qed
  qed
qed

lemma same_shape_refl [simp]: "same_shape r r"
  by (simp add: same_shape_def)

lemma same_shape_trans: "same_shape r r' \<Longrightarrow> same_shape r' r'' \<Longrightarrow> same_shape r r''"
  by (simp add: same_shape_def)

lemma same_shape_put_replace:
  assumes "fs_lookup r p = Some a" and "\<not> is_dir a" and "\<not> is_dir n"
  shows "same_shape r (fs_put r p n)"
proof -
  have par: "p = [] \<or> dir_at r (butlast p)"
    using assms(1) fs_lookup_parent by blast
  have nd: "\<not> dir_at r p"
    using assms(1,2) by (simp add: dir_at_def)
  show ?thesis
    unfolding same_shape_def
    using dir_at_put_non_dir [OF par nd assms(3)] fs_lookup_None_put_replace [OF assms]
    by simp
qed

lemma resolve_from_mono:
  assumes "\<And>q. dir_at r q \<Longrightarrow> dir_at r' q" and "resolve_from r cur cs = Inr x"
  shows "resolve_from r' cur cs = Inr x"
  using assms(2)
proof (induction cs arbitrary: cur)
  case Nil
  then show ?case by simp
next
  case (Cons c cs)
  from Cons.prems have d: "dir_at r cur" and rest: "resolve_from r (path_step cur c) cs = Inr x"
    by (auto simp: dir_at_def split: option.splits if_splits)
  from assms(1) [OF d] Cons.IH [OF rest] show ?case
    by (auto simp: dir_at_def split: option.splits)
qed

lemma resolve_from_same_shape:
  assumes "same_shape r r'"
  shows "resolve_from r' cur cs = resolve_from r cur cs"
proof (induction cs arbitrary: cur)
  case Nil
  show ?case by simp
next
  case (Cons c cs)
  from assms have "dir_at r' cur = dir_at r cur"
    and "(fs_lookup r' cur = None) = (fs_lookup r cur = None)"
    by (simp_all add: same_shape_def)
  then show ?case
    by (auto simp: dir_at_def Cons.IH split: option.splits)
qed

section \<open>Path resolution in worlds of the same shape\<close>

lemma namei_same_shape:
  assumes "same_shape (root w) (root w')" and "cwd w' = cwd w"
  shows "namei w' p = namei w p"
  using assms by (simp add: namei_def resolve_from_same_shape)

lemma os_path_exists_same_shape:
  assumes "same_shape (root w) (root w')" and "cwd w' = cwd w"
  shows "os_path_exists w' p = os_path_exists w p"
proof (cases "namei w p")
  case (Inl e)
  then show ?thesis
    using namei_same_shape [OF assms, of p] by (simp add: os_path_exists_def os_stat_def)
next
  case (Inr cp)
  from assms(1) have "(fs_lookup (root w') cp = None) = (fs_lookup (root w) cp = None)"
    by (simp add: same_shape_def)
  then show ?thesis
    using Inr namei_same_shape [OF assms, of p]
    by (auto simp: os_path_exists_def os_stat_def split: option.splits)
qed

lemma os_path_isdir_same_shape:
  assumes "same_shape (root w) (root w')" and "cwd w' = cwd w"
  shows "os_path_isdir w' p = os_path_isdir w p"
proof (cases "namei w p")
  case (Inl e)
  then show ?thesis
    using namei_same_shape [OF assms, of p] by (simp add: os_path_isdir_def os_stat_def)
next
  case (Inr cp)
  from assms(1) have "dir_at (root w') cp = dir_at (root w) cp"
    by (simp add: same_shape_def)
  then show ?thesis
    using Inr namei_same_shape [OF assms, of p]
    by (auto simp: os_path_isdir_def os_stat_def dir_at_def split: option.splits)
qed

section \<open>One write into the archive\<close>

lemma zip_write_Inl:
  assumes "zip_write h p w = (Inl e, w')"
  shows "w' = log_event (EvZipWrite p) w"
  using assms
  by (auto simp: zip_write_def Let_def split: option.splits node.splits bool.splits
      sum.splits if_splits)

lemma zip_write_Inr:
  assumes "zip_write h p w = (Inr u, w')"
  shows "\<exists>es sz. fs_lookup (root w) h = Some (Archive es False) \<and>
           w' = (log_event (EvZipWrite p) w)
                  \<lparr>root := fs_put (root w) h (Archive (es @ [(entry_name w p, sz)]) False)\<rparr>"
  using assms
  by (auto simp: zip_write_def Let_def entry_name_def os_path_isdir_def
      split: option.splits node.splits bool.splits sum.splits if_splits)

lemma archive_open_iff: "archive_open w h \<longleftrightarrow> (\<exists>es. fs_lookup (root w) h = Some (Archive es False))"
  by (auto simp: archive_open_def split: option.splits node.splits bool.splits)

lemma fs_lookup_put_existing:
  assumes "fs_lookup r h = Some a"
  shows "fs_lookup (fs_put r h n) h = Some n"
  using assms fs_lookup_parent [OF assms] fs_lookup_put_same [of h r n] by blast

section \<open>Sequences of writes\<close>

lemma fs_put_same:
  assumes "fs_lookup r h = Some a"
  shows "fs_put r h a = r"
  using assms
proof (induction h arbitrary: r)
  case Nil
  then show ?case by simp
next
  case (Cons c cs)
  then obtain wr es ch where r: "r = Dir wr es" "map_of es c = Some ch" "fs_lookup ch cs = Some a"
    by (cases r) (auto split: option.splits)
  with Cons.IH [of ch] show ?case
    by (simp add: update_triv)
qed

lemma written_Nil:
  assumes "archive_open w h"
  shows "written h w [] w"
proof -
  from assms obtain es where es: "fs_lookup (root w) h = Some (Archive es False)"
    by (auto simp: archive_open_iff)
  then have "root w = fs_put (root w) h (Archive (es @ []) False)"
    by (simp add: fs_put_same)
  with es show ?thesis
    unfolding written_def by (intro exI [of _ es] exI [of _ "[]"]) simp
qed

lemma written_step:
  assumes "zip_write h p w = (Inr u, w')"
  shows "written h w [p] w'"
proof -
  from zip_write_Inr [OF assms] obtain es sz where
    es: "fs_lookup (root w) h = Some (Archive es False)" and
    w': "w' = (log_event (EvZipWrite p) w)
                  \<lparr>root := fs_put (root w) h (Archive (es @ [(entry_name w p, sz)]) False)\<rparr>"
    by blast
  show ?thesis
    unfolding written_def
    by (intro exI [of _ es] exI [of _ "[(entry_name w p, sz)]"]) (simp add: es w')
qed

lemma written_same_shape:
  assumes "written h w ps w'"
  shows "same_shape (root w) (root w')"
proof -
  from assms obtain es es' where "fs_lookup (root w) h = Some (Archive es False)"
    "root w' = fs_put (root w) h (Archive (es @ es') False)"
    unfolding written_def by blast
  then show ?thesis
    using same_shape_put_replace [of "root w" h "Archive es False" "Archive (es @ es') False"]
    by simp
qed

lemma written_entry_name:
  assumes "written h w ps w'"
  shows "entry_name w' p = entry_name w p"
proof -
  from assms have "cwd w' = cwd w"
    by (auto simp: written_def)
  with written_same_shape [OF assms] show ?thesis
    by (simp add: entry_name_def os_path_isdir_same_shape)
qed

lemma written_trans:
  assumes "written h w ps w'" and "written h w' qs w''"
  shows "written h w (ps @ qs) w''"
proof -
  from assms(1) obtain es es' where
    a: "fs_lookup (root w) h = Some (Archive es False)"
       "root w' = fs_put (root w) h (Archive (es @ es') False)"
       "map fst es' = map (entry_name w) ps"
       "cwd w' = cwd w" "clock w' = clock w" "archive_bytes w' = archive_bytes w"
       "stdout w' = stdout w" "trace w' = trace w @ map EvZipWrite ps"
    unfolding written_def by blast
  from assms(2) obtain fs fs' where
    b: "fs_lookup (root w') h = Some (Archive fs False)"
       "root w'' = fs_put (root w') h (Archive (fs @ fs') False)"
       "map fst fs' = map (entry_name w') qs"
       "cwd w'' = cwd w'" "clock w'' = clock w'" "archive_bytes w'' = archive_bytes w'"
       "stdout w'' = stdout w'" "trace w'' = trace w' @ map EvZipWrite qs"
    unfolding written_def by blast
  from a(1,2) have "fs_lookup (root w') h = Some (Archive (es @ es') False)"
    by (simp add: fs_lookup_put_existing)
  with b(1) have fs: "fs = es @ es'"
    by simp
  have names: "map fst (es' @ fs') = map (entry_name w) (ps @ qs)"
    using a(3) b(3) written_entry_name [OF assms(1)] by simp
  have "root w'' = fs_put (root w) h (Archive (es @ (es' @ fs')) False)"
    using a(2) b(2) fs by (simp add: fs_put_put)
  with a b names show ?thesis
    unfolding written_def by (intro exI [of _ es] exI [of _ "es' @ fs'"]) simp
qed

lemma written_archive_open:
  assumes "written h w ps w'"
  shows "archive_open w h" and "archive_open w' h"
  using assms by (auto simp: written_def archive_open_iff fs_lookup_put_existing)

lemma written_entries:
  assumes "written h w ps w'"
  shows "map fst (archive_entries w' h) = map fst (archive_entries w h) @ map (entry_name w) ps"
  using assms by (auto simp: written_def archive_entries_def fs_lookup_put_existing)

section \<open>The walk does not see what is written\<close>

lemma map_filter_update:
  assumes "map_of es c = Some ch" and "f (c, v) = f (c, ch)" and "P (c, v) = P (c, ch)"
  shows "map f (filter P (AList.update c v es)) = map f (filter P es)"
  using assms(1)
proof (induction es)
  case Nil
  then show ?case by simp
next
  case (Cons e es)
  show ?case
  proof (cases "fst e = c")
    case True
    with Cons.prems have "e = (c, ch)"
      by (cases e) simp
    with assms(2,3) show ?thesis
      by simp
  next
    case False
    with Cons show ?thesis
      by (cases e) simp
  qed
qed

lemma walk_tree_non_dir: "\<not> is_dir n \<Longrightarrow> walk_tree tp n = []"
  by (cases n) simp_all

lemma walk_tree_put:
  assumes "fs_lookup d p = Some a" and "\<not> is_dir a" and "\<not> is_dir n"
  shows "walk_tree tp (fs_put d p n) = walk_tree tp d"
  using assms(1)
proof (induction p arbitrary: d tp)
  case Nil
  with assms(2,3) show ?case
    by (simp add: walk_tree_non_dir)
next
  case (Cons c cs)
  then obtain wr es ch where d: "d = Dir wr es" "map_of es c = Some ch" "fs_lookup ch cs = Some a"
    by (cases d) (auto split: option.splits)
  define v where "v = fs_put ch cs n"
  have kind: "is_dir v = is_dir ch"
  proof (cases cs)
    case Nil
    with d(3) assms(2,3) show ?thesis
      by (simp add: v_def)
  next
    case (Cons x xs)
    then show ?thesis
      by (simp add: v_def is_dir_fs_put_Cons)
  qed
  have sub: "walk_tree t v = walk_tree t ch" for t
    unfolding v_def using Cons.IH [OF d(3)] .
  have 1: "map fst (filter (\<lambda>e. is_dir (snd e)) (AList.update c v es)) =
           map fst (filter (\<lambda>e. is_dir (snd e)) es)"
    by (rule map_filter_update [OF d(2)]) (simp_all add: kind)
  have 2: "map fst (filter (\<lambda>e. \<not> is_dir (snd e)) (AList.update c v es)) =
           map fst (filter (\<lambda>e. \<not> is_dir (snd e)) es)"
    by (rule map_filter_update [OF d(2)]) (simp_all add: kind)
  have 3: "map (\<lambda>e. walk_tree (os_path_join tp (fst e)) (snd e))
             (filter (\<lambda>e. is_dir (snd e)) (AList.update c v es)) =
           map (\<lambda>e. walk_tree (os_path_join tp (fst e)) (snd e))
             (filter (\<lambda>e. is_dir (snd e)) es)"
    by (rule map_filter_update [OF d(2)]) (simp_all add: kind sub)
  show ?case
    using 1 2 3 by (simp add: d v_def [symmetric])
qed

lemma walk_tree_lookup_put:
  assumes "fs_lookup r h = Some a" and "\<not> is_dir a" and "\<not> is_dir n"
  shows "(case fs_lookup (fs_put r h n) q of None \<Rightarrow> [] | Some x \<Rightarrow> walk_tree tp x) =
         (case fs_lookup r q of None \<Rightarrow> [] | Some x \<Rightarrow> walk_tree tp x)"
proof -
  have par: "h = [] \<or> dir_at r (butlast h)"
    using assms(1) fs_lookup_parent by blast
  have nd: "\<not> dir_at r h"
    using assms(1,2) by (simp add: dir_at_def)
  show ?thesis
  proof (cases "prefix q h")
    case False
    from fs_lookup_put_elsewhere [OF par nd assms(3) False] False show ?thesis
      by auto
  next
    case True
    show ?thesis
    proof (cases "q = h")
      case True
      then show ?thesis
        using assms fs_lookup_put_existing [OF assms(1), of n] by (simp add: walk_tree_non_dir)
    next
      case False
      with True obtain c s where h: "h = q @ c # s"
        by (metis append_Nil2 neq_Nil_conv prefix_def)
      with assms(1) obtain d where d: "fs_lookup r q = Some d" "fs_lookup d (c # s) = Some a"
        by (auto simp: fs_lookup_append split: option.splits)
      from h par have "dir_at r (butlast h)" "h \<noteq> []"
        by auto
      from fs_lookup_put [OF this, of n q] h d(1)
      have "fs_lookup (fs_put r h n) q = Some (fs_put d (c # s) n)"
        by simp
      with d walk_tree_put [OF d(2) assms(2,3)] show ?thesis
        by simp
    qed
  qed
qed

lemma os_walk_alt:
  "os_walk w s = (case namei w s of Inl e \<Rightarrow> []
     | Inr cp \<Rightarrow> (case fs_lookup (root w) cp of None \<Rightarrow> [] | Some x \<Rightarrow> walk_tree s x))"
  by (simp add: os_walk_def os_stat_def split: sum.splits option.splits)

lemma os_walk_written:
  assumes "written h w ps w'"
  shows "os_walk w' s = os_walk w s"
proof -
  from assms obtain es es' where
    a: "fs_lookup (root w) h = Some (Archive es False)"
       "root w' = fs_put (root w) h (Archive (es @ es') False)" "cwd w' = cwd w"
    unfolding written_def by blast
  have n: "namei w' s = namei w s"
    using written_same_shape [OF assms] a(3) by (rule namei_same_shape)
  show ?thesis
    unfolding os_walk_alt n a(2)
    using walk_tree_lookup_put [OF a(1), of "Archive (es @ es') False"]
    by (simp split: sum.splits)
qed

lemma walked_paths_written:
  assumes "written h w ps w'"
  shows "walked_paths w' sources = walked_paths w sources"
  by (simp add: walked_paths_def os_walk_written [OF assms])

section \<open>The loops of the archive writer\<close>

lemma loop_outcome_Inr [simp]: "loop_outcome h w ps (Inr u, w') = written h w ps w'"
  by (simp add: loop_outcome_def)

lemma loop_outcome_Inl:
  "loop_outcome h w ps (Inl e, w') = (\<exists>qs p v. written h w qs v \<and> zip_write h p v = (Inl e, w'))"
  by (simp add: loop_outcome_def)

lemma loop_outcome_seq:
  assumes "written h w ps w1" and "loop_outcome h w1 qs res"
  shows "loop_outcome h w (ps @ qs) res"
proof (cases res)
  case (Pair x w2)
  show ?thesis
  proof (cases x)
    case (Inl e)
    with Pair assms(2) obtain rs p v where rs: "written h w1 rs v"
      and zw: "zip_write h p v = (Inl e, w2)"
      by (auto simp: loop_outcome_Inl)
    from written_trans [OF assms(1) rs] zw
    have "\<exists>qs p v. written h w qs v \<and> zip_write h p v = (Inl e, w2)"
      by blast
    with Pair Inl show ?thesis
      by (simp add: loop_outcome_Inl)
  next
    case (Inr u)
    with Pair assms show ?thesis
      by (simp add: written_trans)
  qed
qed

lemma loop_outcome_raised:
  assumes "loop_outcome h w ps (Inl e, w')"
  shows "loop_outcome h w qs (Inl e, w')"
  using assms by (simp add: loop_outcome_Inl)

lemma write_files_outcome:
  assumes "archive_open w h"
  shows "loop_outcome h w (map (os_path_join d) files) (write_files h d files w)"
  using assms
proof (induction files arbitrary: w)
  case Nil
  then show ?case
    by (simp add: written_Nil)
next
  case (Cons f files)
  obtain res w1 where zw: "zip_write h (os_path_join d f) w = (res, w1)"
    by (cases "zip_write h (os_path_join d f) w") auto
  show ?case
  proof (cases res)
    case (Inl e)
    with zw written_Nil [OF Cons.prems] show ?thesis
      by (auto simp: Let_def loop_outcome_Inl)
  next
    case (Inr u)
    with zw have st: "written h w [os_path_join d f] w1"
      by (simp add: written_step)
    have "loop_outcome h w1 (map (os_path_join d) files) (write_files h d files w1)"
      by (rule Cons.IH [OF written_archive_open(2) [OF st]])
    from loop_outcome_seq [OF st this] show ?thesis
      using zw Inr by (simp add: Let_def)
  qed
qed

lemma walk_loop_outcome:
  assumes "archive_open w h"
  shows "loop_outcome h w (concat (map triple_paths ts)) (walk_loop h ts w)"
  using assms
proof (induction ts arbitrary: w)
  case Nil
  then show ?case
    by (simp add: written_Nil)
next
  case (Cons t ts)
  obtain root_dir dirs files where t: "t = (root_dir, dirs, files)"
    by (cases t) auto
  have inner: "loop_outcome h w (triple_paths t) (write_files h root_dir files w)"
    using write_files_outcome [OF Cons.prems, of root_dir files] by (simp add: t triple_paths_def)
  obtain res w1 where wf: "write_files h root_dir files w = (res, w1)"
    by (cases "write_files h root_dir files w") auto
  show ?case
  proof (cases res)
    case (Inl e)
    with inner wf show ?thesis
      by (auto simp: t intro: loop_outcome_raised)
  next
    case (Inr u)
    with inner wf have st: "written h w (triple_paths t) w1"
      by simp
    have "loop_outcome h w1 (concat (map triple_paths ts)) (walk_loop h ts w1)"
      by (rule Cons.IH [OF written_archive_open(2) [OF st]])
    from loop_outcome_seq [OF st this] show ?thesis
      using wf Inr by (simp add: t)
  qed
qed

lemma source_loop_outcome:
  assumes "archive_open w h"
  shows "loop_outcome h w (walked_paths w sources) (source_loop h sources w)"
  using assms
proof (induction sources arbitrary: w)
  case Nil
  then show ?case
    by (simp add: written_Nil walked_paths_def)
next
  case (Cons s sources)
  have inner: "loop_outcome h w (concat (map triple_paths (os_walk w s)))
      (walk_loop h (os_walk w s) w)"
    by (rule walk_loop_outcome [OF Cons.prems])
  obtain res w1 where wl: "walk_loop h (os_walk w s) w = (res, w1)"
    by (cases "walk_loop h (os_walk w s) w") auto
  show ?case
  proof (cases res)
    case (Inl e)
    with inner wl show ?thesis
      by (auto intro: loop_outcome_raised)
  next
    case (Inr u)
    with inner wl have st: "written h w (concat (map triple_paths (os_walk w s))) w1"
      by simp
    have "loop_outcome h w1 (walked_paths w1 sources) (source_loop h sources w1)"
      by (rule Cons.IH [OF written_archive_open(2) [OF st]])
    then have "loop_outcome h w1 (walked_paths w sources) (source_loop h sources w1)"
      by (simp add: walked_paths_written [OF st])
    from loop_outcome_seq [OF st this] show ?thesis
      using wl Inr by (simp add: walked_paths_def)
  qed
qed

section \<open>Opening and closing the archive\<close>

lemma zipfile_open_Inl:
  assumes "zipfile_open zp w = (Inl e, w1)"
  shows "w1 = log_event (EvZipOpen zp) w"
  using assms
  by (auto simp: zipfile_open_def Let_def split: sum.splits option.splits node.splits if_splits)

lemma zipfile_open_Inr:
  assumes "zipfile_open zp w = (Inr h, w1)"
  shows "namei w zp = Inr h"
    and "\<not> dir_at (root w) h"
    and "h = [] \<or> dir_at (root w) (butlast h)"
    and "w1 = (log_event (EvZipOpen zp) w)\<lparr>root := fs_put (root w) h (Archive [] False)\<rparr>"
proof -
  from assms show "namei w zp = Inr h"
    by (auto simp: zipfile_open_def Let_def split: sum.splits option.splits node.splits if_splits)
  from assms show "\<not> dir_at (root w) h"
    by (auto simp: zipfile_open_def Let_def dir_at_def
        split: sum.splits option.splits node.splits if_splits)
  from assms show "w1 = (log_event (EvZipOpen zp) w)\<lparr>root := fs_put (root w) h (Archive [] False)\<rparr>"
    by (auto simp: zipfile_open_def Let_def split: sum.splits option.splits node.splits if_splits)
  show "h = [] \<or> dir_at (root w) (butlast h)"
  proof (cases "fs_lookup (root w) h")
    case None
    with assms show ?thesis
      by (auto simp: zipfile_open_def Let_def dir_at_def
          split: sum.splits option.splits node.splits if_splits)
  next
    case (Some a)
    then show ?thesis
      using fs_lookup_parent by blast
  qed
qed

lemma fs_put_leaf_keeps_resolution:
  assumes "h = [] \<or> dir_at r (butlast h)" and "\<not> dir_at r h" and "\<not> is_dir n"
    and "resolve_from r cur cs = Inr x"
  shows "resolve_from (fs_put r h n) cur cs = Inr x"
proof (rule resolve_from_mono [OF _ assms(4)])
  fix q
  assume "dir_at r q"
  then show "dir_at (fs_put r h n) q"
    by (simp only: dir_at_put_non_dir [OF assms(1,2,3)])
qed

lemma zipfile_open_opens:
  assumes "zipfile_open zp w = (Inr h, w1)"
  shows "fs_lookup (root w1) h = Some (Archive [] False)" and "archive_open w1 h"
    and "namei w1 zp = Inr h"
proof -
  note opn = zipfile_open_Inr [OF assms]
  have r1: "root w1 = fs_put (root w) h (Archive [] False)" and c1: "cwd w1 = cwd w"
    by (simp_all add: opn(4))
  have "fs_lookup (fs_put (root w) h (Archive [] False)) h = Some (Archive [] False)"
    using opn(3) by (rule fs_lookup_put_same)
  then show l: "fs_lookup (root w1) h = Some (Archive [] False)"
    by (simp only: r1)
  then show "archive_open w1 h"
    by (simp add: archive_open_iff)
  have nd: "\<not> is_dir (Archive [] False)"
    by simp
  show "namei w1 zp = Inr h"
  proof (cases "zp = []")
    case True
    with opn(1) show ?thesis
      by (simp add: namei_def)
  next
    case False
    with opn(1) have "resolve_from (root w) (if hd zp = CHR ''/'' then [] else cwd w)
        (split_sep zp) = Inr h"
      by (simp add: namei_def)
    from fs_put_leaf_keeps_resolution [OF opn(3) opn(2) nd this] False show ?thesis
      by (simp add: namei_def r1 c1 split: if_splits)
  qed
qed

lemma zip_close_open:
  assumes "fs_lookup (root w) h = Some (Archive es False)"
  shows "zip_close h w =
     (Inr (), (log_event (EvZipClose h) w)\<lparr>root := fs_put (root w) h (Archive es True)\<rparr>)"
  using assms by (simp add: zip_close_def Let_def)

text \<open>The archive writer, when it returns and when it raises.\<close>

lemma create_zip_file_Inr:
  assumes "create_zip_file zp sources w = (Inr u, w')"
  shows "\<exists>h w1 w2 es. zipfile_open zp w = (Inr h, w1) \<and>
           written h w1 (walked_paths w1 sources) w2 \<and>
           fs_lookup (root w2) h = Some (Archive es False) \<and>
           w' = (log_event (EvZipClose h) w2)\<lparr>root := fs_put (root w2) h (Archive es True)\<rparr>"
proof -
  from assms obtain h w1 where op: "zipfile_open zp w = (Inr h, w1)"
    by (auto simp: create_zip_file_def split: prod.splits sum.splits)
  with assms obtain w2 where sl: "source_loop h sources w1 = (Inr (), w2)"
    and cl: "zip_close h w2 = (Inr u, w')"
    by (auto simp: create_zip_file_def split: prod.splits sum.splits)
  from source_loop_outcome [OF zipfile_open_opens(2) [OF op], of sources] sl
  have wr: "written h w1 (walked_paths w1 sources) w2"
    by simp
  from written_archive_open(2) [OF wr] obtain es
    where es: "fs_lookup (root w2) h = Some (Archive es False)"
    by (auto simp: archive_open_iff)
  from cl zip_close_open [OF es] op wr es show ?thesis
    by auto
qed

lemma create_zip_file_Inl:
  assumes "create_zip_file zp sources w = (Inl e, w')"
  shows "zipfile_open zp w = (Inl e, w') \<or>
         (\<exists>h w1 qs p v. zipfile_open zp w = (Inr h, w1) \<and> written h w1 qs v \<and>
            zip_write h p v = (Inl e, w'))"
proof (cases "zipfile_open zp w")
  case (Pair x w1)
  show ?thesis
  proof (cases x)
    case (Inl e1)
    with Pair assms show ?thesis
      by (simp add: create_zip_file_def)
  next
    case (Inr h)
    with Pair have op: "zipfile_open zp w = (Inr h, w1)"
      by simp
    have cl: "zip_close h v \<noteq> (Inl e, w')" for v
      by (simp add: zip_close_def Let_def split: option.splits node.splits bool.splits)
    obtain y w2 where sl2: "source_loop h sources w1 = (y, w2)"
      by (cases "source_loop h sources w1") auto
    have sl: "source_loop h sources w1 = (Inl e, w')"
    proof (cases y)
      case (Inl e2)
      with assms op sl2 show ?thesis
        by (simp add: create_zip_file_def)
    next
      case (Inr u)
      with assms op sl2 cl [of w2] show ?thesis
        by (simp add: create_zip_file_def)
    qed
    from source_loop_outcome [OF zipfile_open_opens(2) [OF op], of sources] sl
    have "\<exists>qs p v. written h w1 qs v \<and> zip_write h p v = (Inl e, w')"
      by (simp add: loop_outcome_Inl)
    with op show ?thesis
      by blast
  qed
qed

section \<open>Sources that yield no files\<close>

lemma os_walk_missing:
  assumes "\<not> os_path_exists w p"
  shows "os_walk w p = []"
  using assms by (simp add: os_walk_def os_path_exists_def split: sum.splits)

lemma written_os_path_exists:
  assumes "written h w ps w'"
  shows "os_path_exists w' p = os_path_exists w p"
proof -
  from assms have "cwd w' = cwd w"
    by (auto simp: written_def)
  with written_same_shape [OF assms] show ?thesis
    by (rule os_path_exists_same_shape)
qed

lemma written_namei:
  assumes "written h w ps w'"
  shows "namei w' p = namei w p"
proof -
  from assms have "cwd w' = cwd w"
    by (auto simp: written_def)
  with written_same_shape [OF assms] show ?thesis
    by (rule namei_same_shape)
qed

lemma source_loop_skips_missing:
  assumes "archive_open w h" and "\<not> os_path_exists w p"
  shows "source_loop h (xs @ p # ys) w = source_loop h (xs @ ys) w"
  using assms
proof (induction xs arbitrary: w)
  case Nil
  then show ?case
    by (simp add: os_walk_missing)
next
  case (Cons x xs)
  obtain res w1 where wl: "walk_loop h (os_walk w x) w = (res, w1)"
    by (cases "walk_loop h (os_walk w x) w") auto
  show ?case
  proof (cases res)
    case (Inl e)
    with wl show ?thesis
      by simp
  next
    case (Inr u)
    with wl walk_loop_outcome [OF Cons.prems(1), of "os_walk w x"]
    have st: "written h w (concat (map triple_paths (os_walk w x))) w1"
      by simp
    from Cons.prems(2) have "\<not> os_path_exists w1 p"
      by (simp add: written_os_path_exists [OF st])
    from Cons.IH [OF written_archive_open(2) [OF st] this] wl Inr show ?thesis
      by simp
  qed
qed

text \<open>
  C2. The claim: a source that does not exist at walk time makes the archive writer
  fail with \<open>SourceNotFoundError\<close> and aborts the run, with no skip-and-continue. The code,
  with the sources \<open>missing\<close> (which does not exist) and \<open>subdir/\<close>: the archive writer
  returns normally, and the archive holds the file of the other source.
\<close>

theorem C2_missing_source_counterexample:
  "\<not> os_path_exists example_world ''missing'' \<and>
   fst (create_zip_file ''out/b.zip'' [''missing'', ''subdir/''] example_world) = Inr () \<and>
   os_stat (snd (create_zip_file ''out/b.zip'' [''missing'', ''subdir/''] example_world))
     ''out/b.zip'' = Inr (Archive [(''subdir/b.txt'', 1)] True)"
  by (simp add: create_zip_file_def example_defs library_defs)

text \<open>
  C2, as the code has it. The walk of a path that does not exist yields nothing and
  raises nothing, and the loop over the sources goes on with the next one: with the
  archive open, a sources list that contains such a path is processed exactly as the
  list without it.
\<close>

theorem C2_missing_source_is_skipped:
  assumes "archive_open w zip_obj" and "\<not> os_path_exists w p"
  shows "os_walk w p = [] \<and>
         source_loop zip_obj (xs @ p # ys) w = source_loop zip_obj (xs @ ys) w"
  using assms by (simp add: os_walk_missing source_loop_skips_missing)

theorem C2_missing_source_is_skipped_witness:
  "archive_open example_opened [''work'', ''out'', ''b.zip''] \<and>
   \<not> os_path_exists example_opened ''missing'' \<and>
   os_walk example_opened ''missing'' = [] \<and>
   source_loop [''work'', ''out'', ''b.zip''] ([''a.txt''] @ ''missing'' # [''subdir/''])
     example_opened =
   source_loop [''work'', ''out'', ''b.zip''] ([''a.txt''] @ [''subdir/'']) example_opened"
proof -
  have a: "archive_open example_opened [''work'', ''out'', ''b.zip'']"
    by (simp add: example_opened_def archive_open_def example_defs library_defs)
  have b: "\<not> os_path_exists example_opened ''missing''"
    by (simp add: example_opened_def example_defs library_defs)
  from C2_missing_source_is_skipped [OF a b, of "[''a.txt'']" "[''subdir/'']"] a b
  show ?thesis
    by simp
qed

section \<open>The archive after the writer returned\<close>

lemma closed_archive_stat:
  assumes "namei w2 zp = Inr h" and "fs_lookup (root w2) h = Some (Archive es False)"
  shows "os_stat ((log_event ev w2)\<lparr>root := fs_put (root w2) h (Archive es True)\<rparr>) zp =
         Inr (Archive es True)"
proof -
  let ?w3 = "(log_event ev w2)\<lparr>root := fs_put (root w2) h (Archive es True)\<rparr>"
  have "same_shape (root w2) (root ?w3)"
    using same_shape_put_replace [OF assms(2), of "Archive es True"] by simp
  moreover have "cwd ?w3 = cwd w2"
    by simp
  ultimately have "namei ?w3 zp = namei w2 zp"
    by (rule namei_same_shape)
  moreover have "fs_lookup (root ?w3) h = Some (Archive es True)"
    using fs_lookup_put_existing [OF assms(2)] by simp
  ultimately show ?thesis
    using assms(1) by (simp add: os_stat_def)
qed

lemma create_zip_file_result:
  assumes "create_zip_file zp sources w = (Inr u, w')"
  shows "\<exists>h w1 es. zipfile_open zp w = (Inr h, w1) \<and>
           os_stat w' zp = Inr (Archive es True) \<and>
           fs_lookup (root w') h = Some (Archive es True) \<and>
           map fst es = map (entry_name w1) (walked_paths w1 sources) \<and>
           trace w' = trace w @ [EvZipOpen zp] @ map EvZipWrite (walked_paths w1 sources) @
             [EvZipClose h] \<and>
           stdout w' = stdout w \<and> cwd w' = cwd w \<and> clock w' = clock w \<and>
           archive_bytes w' = archive_bytes w"
proof -
  from create_zip_file_Inr [OF assms] obtain h w1 w2 es where
    op: "zipfile_open zp w = (Inr h, w1)" and
    wr: "written h w1 (walked_paths w1 sources) w2" and
    es: "fs_lookup (root w2) h = Some (Archive es False)" and
    w': "w' = (log_event (EvZipClose h) w2)\<lparr>root := fs_put (root w2) h (Archive es True)\<rparr>"
    by blast
  note o1 = zipfile_open_Inr(4) [OF op] and o2 = zipfile_open_opens [OF op]
  have n2: "namei w2 zp = Inr h"
    using written_namei [OF wr, of zp] o2(3) by simp
  have st: "os_stat w' zp = Inr (Archive es True)"
    unfolding w' by (rule closed_archive_stat [OF n2 es])
  have lk: "fs_lookup (root w') h = Some (Archive es True)"
    using fs_lookup_put_existing [OF es] by (simp add: w')
  have "archive_entries w2 h = es" "archive_entries w1 h = []"
    using es o2(1) by (simp_all add: archive_entries_def)
  with written_entries [OF wr]
  have names: "map fst es = map (entry_name w1) (walked_paths w1 sources)"
    by simp
  from wr have f2: "cwd w2 = cwd w1" "clock w2 = clock w1" "archive_bytes w2 = archive_bytes w1"
    "stdout w2 = stdout w1" "trace w2 = trace w1 @ map EvZipWrite (walked_paths w1 sources)"
    by (auto simp: written_def)
  have f1: "cwd w1 = cwd w" "clock w1 = clock w" "archive_bytes w1 = archive_bytes w"
    "stdout w1 = stdout w" "trace w1 = trace w @ [EvZipOpen zp]"
    by (simp_all add: o1)
  have tr: "trace w' = trace w @ [EvZipOpen zp] @ map EvZipWrite (walked_paths w1 sources) @
             [EvZipClose h]"
    by (simp add: w' f1 f2)
  have rest: "stdout w' = stdout w" "cwd w' = cwd w" "clock w' = clock w"
    "archive_bytes w' = archive_bytes w"
    by (simp_all add: w' f1 f2)
  from op st lk names tr rest show ?thesis
    by blast
qed

lemma create_zip_file_failure:
  assumes "create_zip_file zp sources w = (Inl e, w')"
  shows "stdout w' = stdout w"
    and "\<exists>ps. trace w' = trace w @ EvZipOpen zp # map EvZipWrite ps"
    and "zipfile_open zp w = (Inr h, w1) \<Longrightarrow> archive_open w' h"
proof -
  from create_zip_file_Inl [OF assms] consider
    (opn) "zipfile_open zp w = (Inl e, w')"
  | (wrt) h1 v1 qs p v where "zipfile_open zp w = (Inr h1, v1)" "written h1 v1 qs v"
      "zip_write h1 p v = (Inl e, w')"
    by blast
  then have "stdout w' = stdout w \<and>
      (\<exists>ps. trace w' = trace w @ EvZipOpen zp # map EvZipWrite ps) \<and>
      (zipfile_open zp w = (Inr h, w1) \<longrightarrow> archive_open w' h)"
  proof cases
    case opn
    from zipfile_open_Inl [OF opn] have "trace w' = trace w @ EvZipOpen zp # map EvZipWrite []"
      "stdout w' = stdout w"
      by simp_all
    with opn show ?thesis
      by auto
  next
    case wrt
    note o1 = zipfile_open_Inr(4) [OF wrt(1)]
    from wrt(2) have f2: "stdout v = stdout v1" "trace v = trace v1 @ map EvZipWrite qs"
      by (auto simp: written_def)
    have w': "w' = log_event (EvZipWrite p) v"
      by (rule zip_write_Inl [OF wrt(3)])
    have "trace w' = trace w @ EvZipOpen zp # map EvZipWrite (qs @ [p])"
      by (simp add: w' f2 o1)
    then have "\<exists>ps. trace w' = trace w @ EvZipOpen zp # map EvZipWrite ps"
      by (rule exI)
    moreover have "stdout w' = stdout w"
      by (simp add: w' f2 o1)
    moreover have "archive_open w' h1"
      using written_archive_open(2) [OF wrt(2)] by (simp add: w' archive_open_def)
    ultimately show ?thesis
      using wrt(1) by auto
  qed
  then show "stdout w' = stdout w"
    and "\<exists>ps. trace w' = trace w @ EvZipOpen zp # map EvZipWrite ps"
    and "zipfile_open zp w = (Inr h, w1) \<Longrightarrow> archive_open w' h"
    by simp_all
qed

section \<open>Walks without files\<close>

lemma walk_loop_no_files:
  assumes "\<forall>t \<in> set ts. snd (snd t) = []"
  shows "walk_loop h ts w = (Inr (), w)"
  using assms by (induction ts) auto

lemma source_loop_no_files:
  assumes "\<forall>s \<in> set sources. \<forall>t \<in> set (os_walk w s). snd (snd t) = []"
  shows "source_loop h sources w = (Inr (), w)"
  using assms by (induction sources) (simp_all add: walk_loop_no_files)

section \<open>The archive of sources without files\<close>

text \<open>
  C10. When the archive can be opened and the walks of the sources yield no files (as
  for an empty directory, or for a path that does not exist), the archive writer returns
  normally, having opened and closed the archive and nothing else, and the archive at
  the computed path is finalized and has no entries. And whenever the archive writer
  raises, the exception and the world it leaves are those of the failed open of the
  archive, or those of a failed write of an entry.
\<close>

theorem C10_no_files_empty_archive:
  "(zipfile_open zip_filepath w = (Inr h, w1) \<and>
    (\<forall>s \<in> set sources. \<forall>t \<in> set (os_walk w1 s). snd (snd t) = []) \<longrightarrow>
      fst (create_zip_file zip_filepath sources w) = Inr () \<and>
      os_stat (snd (create_zip_file zip_filepath sources w)) zip_filepath =
        Inr (Archive [] True) \<and>
      trace (snd (create_zip_file zip_filepath sources w)) =
        trace w @ [EvZipOpen zip_filepath, EvZipClose h]) \<and>
   (create_zip_file zip_filepath sources w = (Inl e, w') \<longrightarrow>
      zipfile_open zip_filepath w = (Inl e, w') \<or> (\<exists>h1 p v. zip_write h1 p v = (Inl e, w')))"
proof (intro conjI impI)
  assume a: "zipfile_open zip_filepath w = (Inr h, w1) \<and>
    (\<forall>s \<in> set sources. \<forall>t \<in> set (os_walk w1 s). snd (snd t) = [])"
  then have op: "zipfile_open zip_filepath w = (Inr h, w1)"
    and sl: "source_loop h sources w1 = (Inr (), w1)"
    by (simp_all add: source_loop_no_files)
  note o2 = zipfile_open_opens [OF op]
  have c: "create_zip_file zip_filepath sources w =
      (Inr (), (log_event (EvZipClose h) w1)\<lparr>root := fs_put (root w1) h (Archive [] True)\<rparr>)"
    by (simp add: create_zip_file_def op sl zip_close_open [OF o2(1)])
  show "fst (create_zip_file zip_filepath sources w) = Inr ()"
    by (simp add: c)
  show "os_stat (snd (create_zip_file zip_filepath sources w)) zip_filepath =
        Inr (Archive [] True)"
    using closed_archive_stat [OF o2(3) o2(1)] by (simp add: c)
  show "trace (snd (create_zip_file zip_filepath sources w)) =
        trace w @ [EvZipOpen zip_filepath, EvZipClose h]"
    by (simp add: c zipfile_open_Inr(4) [OF op])
next
  assume "create_zip_file zip_filepath sources w = (Inl e, w')"
  from create_zip_file_Inl [OF this]
  show "zipfile_open zip_filepath w = (Inl e, w') \<or> (\<exists>h1 p v. zip_write h1 p v = (Inl e, w'))"
    by blast
qed

theorem C10_no_files_empty_archive_witness:
  "zipfile_open ''out/e.zip'' example_world =
     (Inr [''work'', ''out'', ''e.zip''], snd (zipfile_open ''out/e.zip'' example_world)) \<and>
   os_walk (snd (zipfile_open ''out/e.zip'' example_world)) ''missing'' = [] \<and>
   os_walk (snd (zipfile_open ''out/e.zip'' example_world)) ''empty'' = [(''empty'', [], [])] \<and>
   fst (create_zip_file ''out/e.zip'' [''missing'', ''empty''] example_world) = Inr () \<and>
   os_stat (snd (create_zip_file ''out/e.zip'' [''missing'', ''empty''] example_world))
     ''out/e.zip'' = Inr (Archive [] True) \<and>
   create_zip_file ''nowhere/e.zip'' [''empty''] example_world =
     (Inl (OSError ENOENT ''nowhere/e.zip''), log_event (EvZipOpen ''nowhere/e.zip'') example_world)
   \<and> zipfile_open ''nowhere/e.zip'' example_world =
     (Inl (OSError ENOENT ''nowhere/e.zip''), log_event (EvZipOpen ''nowhere/e.zip'') example_world)"
proof -
  have a: "zipfile_open ''out/e.zip'' example_world =
     (Inr [''work'', ''out'', ''e.zip''], snd (zipfile_open ''out/e.zip'' example_world))"
    by (simp add: example_defs library_defs)
  have b: "os_walk (snd (zipfile_open ''out/e.zip'' example_world)) ''missing'' = []"
    by (simp add: example_defs library_defs)
  have c: "os_walk (snd (zipfile_open ''out/e.zip'' example_world)) ''empty'' =
      [(''empty'', [], [])]"
    by (simp add: example_defs library_defs)
  have d: "create_zip_file ''nowhere/e.zip'' [''empty''] example_world =
     (Inl (OSError ENOENT ''nowhere/e.zip''), log_event (EvZipOpen ''nowhere/e.zip'') example_world)"
    by (simp add: create_zip_file_def example_defs library_defs)
  have e: "\<not> (\<exists>h1 p v. zip_write h1 p v =
     (Inl (OSError ENOENT ''nowhere/e.zip''), log_event (EvZipOpen ''nowhere/e.zip'') example_world))"
  proof
    assume "\<exists>h1 p v. zip_write h1 p v =
     (Inl (OSError ENOENT ''nowhere/e.zip''), log_event (EvZipOpen ''nowhere/e.zip'') example_world)"
    then obtain h1 p v where "zip_write h1 p v =
     (Inl (OSError ENOENT ''nowhere/e.zip''), log_event (EvZipOpen ''nowhere/e.zip'') example_world)"
      by blast
    from zip_write_Inl [OF this]
    have "trace (log_event (EvZipOpen ''nowhere/e.zip'') example_world) =
       trace (log_event (EvZipWrite p) v)"
      by simp
    then show False
      by (simp add: example_defs)
  qed
  from C10_no_files_empty_archive [of "''out/e.zip''" example_world
      "[''work'', ''out'', ''e.zip'']" "snd (zipfile_open ''out/e.zip'' example_world)"
      "[''missing'', ''empty'']"]
    C10_no_files_empty_archive [of "''nowhere/e.zip''" example_world
      "[]" example_world "[''empty'']" "OSError ENOENT ''nowhere/e.zip''"
      "log_event (EvZipOpen ''nowhere/e.zip'') example_world"]
    a b c d e
  show ?thesis
    by simp
qed

section \<open>The names of the entries\<close>

lemma entry_name_of_file: "\<not> os_path_isdir w p \<Longrightarrow> entry_name w p = arcname_of p"
  by (simp add: entry_name_def)

text \<open>
  C8. The claim: every file is stored under an entry name equal to its path as the walk
  produced it. The code, with the source \<open>/work/subdir\<close>: the walk produces the path
  \<open>/work/subdir/b.txt\<close>, and the archive stores the file under \<open>work/subdir/b.txt\<close>; with
  the source \<open>./subdir\<close> the path is \<open>./subdir/b.txt\<close> and the entry \<open>subdir/b.txt\<close>.
\<close>

theorem C8_entry_name_counterexample:
  "walked_paths (snd (zipfile_open ''out/abs.zip'' example_world)) [''/work/subdir'', ''./subdir'']
     = [''/work/subdir/b.txt'', ''./subdir/b.txt''] \<and>
   os_stat (snd (create_zip_file ''out/abs.zip'' [''/work/subdir'', ''./subdir''] example_world))
     ''out/abs.zip'' = Inr (Archive [(''work/subdir/b.txt'', 1), (''subdir/b.txt'', 1)] True) \<and>
   ''work/subdir/b.txt'' \<noteq> ''/work/subdir/b.txt'' \<and> ''subdir/b.txt'' \<noteq> ''./subdir/b.txt''"
  by (simp add: create_zip_file_def walked_paths_def triple_paths_def example_defs library_defs)

text \<open>
  C8, as the code has it. When the archive writer returns, the archive at the computed
  path is finalized and its entries are, in order, those of the paths the walks produced
  (each the join of the walk's directory and the file name, handed to \<open>zip_obj.write\<close>
  with no entry name): the name of an entry is the name the archive library derives from
  the path, which for a path that is not a directory is its \<open>os.path.normpath\<close> without
  the leading slashes. Nothing makes the name relative to the source.
\<close>

theorem C8_entry_names:
  assumes "create_zip_file zip_filepath sources w = (Inr u, w')"
    and "zipfile_open zip_filepath w = (Inr zip_obj, w1)"
  shows "\<exists>es. os_stat w' zip_filepath = Inr (Archive es True) \<and>
           map fst es = map (entry_name w1) (walked_paths w1 sources) \<and>
           ((\<forall>p \<in> set (walked_paths w1 sources). \<not> os_path_isdir w1 p) \<longrightarrow>
              map fst es = map arcname_of (walked_paths w1 sources))"
proof -
  from create_zip_file_result [OF assms(1)] assms(2) obtain es where
    es: "os_stat w' zip_filepath = Inr (Archive es True)"
      "map fst es = map (entry_name w1) (walked_paths w1 sources)"
    by auto
  have "map (entry_name w1) (walked_paths w1 sources) = map arcname_of (walked_paths w1 sources)"
    if "\<forall>p \<in> set (walked_paths w1 sources). \<not> os_path_isdir w1 p"
    using that by (simp add: entry_name_of_file)
  with es show ?thesis
    by auto
qed

theorem C8_entry_names_witness:
  "create_zip_file ''out/abs.zip'' [''/work/subdir'', ''subdir/''] example_world =
     (Inr (), snd (create_zip_file ''out/abs.zip'' [''/work/subdir'', ''subdir/''] example_world)) \<and>
   zipfile_open ''out/abs.zip'' example_world =
     (Inr [''work'', ''out'', ''abs.zip''], snd (zipfile_open ''out/abs.zip'' example_world)) \<and>
   walked_paths (snd (zipfile_open ''out/abs.zip'' example_world)) [''/work/subdir'', ''subdir/'']
     = [''/work/subdir/b.txt'', ''subdir/b.txt''] \<and>
   \<not> os_path_isdir (snd (zipfile_open ''out/abs.zip'' example_world)) ''/work/subdir/b.txt'' \<and>
   \<not> os_path_isdir (snd (zipfile_open ''out/abs.zip'' example_world)) ''subdir/b.txt'' \<and>
   (\<exists>es. os_stat
       (snd (create_zip_file ''out/abs.zip'' [''/work/subdir'', ''subdir/''] example_world))
       ''out/abs.zip'' = Inr (Archive es True) \<and>
     map fst es = [''work/subdir/b.txt'', ''subdir/b.txt''])"
proof -
  have a: "create_zip_file ''out/abs.zip'' [''/work/subdir'', ''subdir/''] example_world =
     (Inr (), snd (create_zip_file ''out/abs.zip'' [''/work/subdir'', ''subdir/''] example_world))"
    by (simp add: create_zip_file_def example_defs library_defs)
  have b: "zipfile_open ''out/abs.zip'' example_world =
     (Inr [''work'', ''out'', ''abs.zip''], snd (zipfile_open ''out/abs.zip'' example_world))"
    by (simp add: example_defs library_defs)
  have c: "walked_paths (snd (zipfile_open ''out/abs.zip'' example_world))
      [''/work/subdir'', ''subdir/''] = [''/work/subdir/b.txt'', ''subdir/b.txt'']"
    by (simp add: walked_paths_def triple_paths_def example_defs library_defs)
  have d: "\<not> os_path_isdir (snd (zipfile_open ''out/abs.zip'' example_world)) ''/work/subdir/b.txt''"
    "\<not> os_path_isdir (snd (zipfile_open ''out/abs.zip'' example_world)) ''subdir/b.txt''"
    by (simp_all add: os_path_isdir_def example_defs library_defs)
  have n: "arcname_of ''/work/subdir/b.txt'' = ''work/subdir/b.txt''"
    "arcname_of ''subdir/b.txt'' = ''subdir/b.txt''"
    by (simp_all add: library_defs)
  from C8_entry_names [OF a b] a b c d n show ?thesis
    by auto
qed

section \<open>The archive writer and the summary\<close>

lemma print_finish_message_of_archive:
  assumes "os_stat w1 zp = Inr (Archive es fin)"
  shows "print_finish_message sources destination zp w1 =
     (Inr (), print_line (finish_message (length sources) destination
                 (format_2f (archive_bytes w1 es fin) (1024 * 1024)))
               (log_event (EvGetsize zp) w1))"
  using assms
  by (simp add: print_finish_message_def os_path_getsize_log_event os_path_getsize_def
      node_size_def Let_def)

text \<open>
  C6. The claim: on every exit path of the archive writer, a failed write of an entry
  included, the archive is closed. The code, with the source \<open>locked\<close>, whose second
  file the process may not read: the write of that file raises, the archive writer is
  left by the exception, no close was made, and the archive on disk holds the first
  entry and is not finalized.
\<close>

theorem C6_failed_write_leaves_archive_open:
  "fst (create_zip_file ''out/l.zip'' [''locked''] example_world) =
     Inl (OSError EACCES ''locked/secret.txt'') \<and>
   trace (snd (create_zip_file ''out/l.zip'' [''locked''] example_world)) =
     [EvZipOpen ''out/l.zip'', EvZipWrite ''locked/ok.txt'', EvZipWrite ''locked/secret.txt''] \<and>
   os_stat (snd (create_zip_file ''out/l.zip'' [''locked''] example_world)) ''out/l.zip'' =
     Inr (Archive [(''locked/ok.txt'', 2)] False)"
  by (simp add: create_zip_file_def example_defs library_defs)

text \<open>
  C6, as the code has it. When the archive writer returns, it has closed the archive as
  its last action, the archive at the path is finalized, and the summary step then
  reports the size of that finalized archive. When the archive writer raises, it has
  made no close: the exception leaves \<open>zipources\<close> at once, so the summary step does not
  run, nothing is printed, and an archive that had been opened is left open. The summary
  therefore never reports on an archive that is not finalized.
\<close>

theorem C6_close_before_summary:
  assumes "zip_filepath = create_zip_filepath (get_current_time (clock w)) destination name"
  shows "(\<forall>u w1. create_zip_file zip_filepath sources w = (Inr u, w1) \<longrightarrow>
            (\<exists>h es. last (trace w1) = EvZipClose h \<and>
               os_stat w1 zip_filepath = Inr (Archive es True) \<and>
               zipources sources destination name w =
                 (Inr (), print_line (finish_message (length sources) destination
                             (format_2f (archive_bytes w es True) (1024 * 1024)))
                           (log_event (EvGetsize zip_filepath) w1)))) \<and>
         (\<forall>e w1. create_zip_file zip_filepath sources w = (Inl e, w1) \<longrightarrow>
            zipources sources destination name w = (Inl e, w1) \<and> stdout w1 = stdout w \<and>
            (\<exists>ps. trace w1 = trace w @ EvZipOpen zip_filepath # map EvZipWrite ps) \<and>
            (\<forall>h v. zipfile_open zip_filepath w = (Inr h, v) \<longrightarrow> archive_open w1 h))"
proof (intro conjI allI impI)
  fix u w1
  assume c: "create_zip_file zip_filepath sources w = (Inr u, w1)"
  from create_zip_file_result [OF c] obtain h v es where
    r: "os_stat w1 zip_filepath = Inr (Archive es True)"
      "trace w1 = trace w @ [EvZipOpen zip_filepath] @
         map EvZipWrite (walked_paths v sources) @ [EvZipClose h]"
      "archive_bytes w1 = archive_bytes w"
    by blast
  have "zipources sources destination name w =
      print_finish_message sources destination zip_filepath w1"
    using c by (simp add: zipources_def assms [symmetric] Let_def)
  with print_finish_message_of_archive [OF r(1)] r
  have "last (trace w1) = EvZipClose h \<and>
               os_stat w1 zip_filepath = Inr (Archive es True) \<and>
               zipources sources destination name w =
                 (Inr (), print_line (finish_message (length sources) destination
                             (format_2f (archive_bytes w es True) (1024 * 1024)))
                           (log_event (EvGetsize zip_filepath) w1))"
    by simp
  then show "\<exists>h es. last (trace w1) = EvZipClose h \<and>
               os_stat w1 zip_filepath = Inr (Archive es True) \<and>
               zipources sources destination name w =
                 (Inr (), print_line (finish_message (length sources) destination
                             (format_2f (archive_bytes w es True) (1024 * 1024)))
                           (log_event (EvGetsize zip_filepath) w1))"
    by blast
next
  fix e w1
  assume c: "create_zip_file zip_filepath sources w = (Inl e, w1)"
  then show "zipources sources destination name w = (Inl e, w1)"
    by (simp add: zipources_def assms [symmetric] Let_def)
  from create_zip_file_failure(1) [OF c] show "stdout w1 = stdout w" .
  from create_zip_file_failure(2) [OF c]
  show "\<exists>ps. trace w1 = trace w @ EvZipOpen zip_filepath # map EvZipWrite ps" .
  fix h v
  assume "zipfile_open zip_filepath w = (Inr h, v)"
  then show "archive_open w1 h"
    by (rule create_zip_file_failure(3) [OF c])
qed

theorem C6_close_before_summary_witness:
  "''out/s.zip'' = create_zip_filepath (get_current_time (clock example_world)) ''out'' (Some ''s'') \<and>
   create_zip_file ''out/s.zip'' [''subdir''] example_world =
     (Inr (), snd (create_zip_file ''out/s.zip'' [''subdir''] example_world)) \<and>
   os_stat (snd (create_zip_file ''out/s.zip'' [''subdir''] example_world)) ''out/s.zip'' =
     Inr (Archive [(''subdir/b.txt'', 1)] True) \<and>
   stdout (snd (zipources [''subdir''] ''out'' (Some ''s'') example_world)) =
     [''The backup of 1 sources has been completed and saved to out (size: 0.00 MB).''] \<and>
   ''out/l.zip'' = create_zip_filepath (get_current_time (clock example_world)) ''out'' (Some ''l'') \<and>
   create_zip_file ''out/l.zip'' [''locked''] example_world =
     (Inl (OSError EACCES ''locked/secret.txt''),
      snd (create_zip_file ''out/l.zip'' [''locked''] example_world)) \<and>
   zipfile_open ''out/l.zip'' example_world =
     (Inr [''work'', ''out'', ''l.zip''], snd (zipfile_open ''out/l.zip'' example_world)) \<and>
   zipources [''locked''] ''out'' (Some ''l'') example_world =
     create_zip_file ''out/l.zip'' [''locked''] example_world \<and>
   stdout (snd (zipources [''locked''] ''out'' (Some ''l'') example_world)) = [] \<and>
   archive_open (snd (create_zip_file ''out/l.zip'' [''locked''] example_world))
     [''work'', ''out'', ''l.zip'']"
proof -
  have p1: "''out/s.zip'' =
      create_zip_filepath (get_current_time (clock example_world)) ''out'' (Some ''s'')"
    and p2: "''out/l.zip'' =
      create_zip_filepath (get_current_time (clock example_world)) ''out'' (Some ''l'')"
    by (simp_all add: create_zip_filepath_def)
  have c1: "create_zip_file ''out/s.zip'' [''subdir''] example_world =
     (Inr (), snd (create_zip_file ''out/s.zip'' [''subdir''] example_world))"
    by (simp add: create_zip_file_def example_defs library_defs)
  have s1: "os_stat (snd (create_zip_file ''out/s.zip'' [''subdir''] example_world)) ''out/s.zip'' =
     Inr (Archive [(''subdir/b.txt'', 1)] True)"
    by (simp add: create_zip_file_def example_defs library_defs)
  have c2: "create_zip_file ''out/l.zip'' [''locked''] example_world =
     (Inl (OSError EACCES ''locked/secret.txt''),
      snd (create_zip_file ''out/l.zip'' [''locked''] example_world))"
    by (simp add: create_zip_file_def example_defs library_defs)
  have o2: "zipfile_open ''out/l.zip'' example_world =
     (Inr [''work'', ''out'', ''l.zip''], snd (zipfile_open ''out/l.zip'' example_world))"
    by (simp add: example_defs library_defs)
  have e: "stdout example_world = []"
    by (simp add: example_defs)
  from C6_close_before_summary [OF p1, of "[''subdir'']"] c1 s1
  have "zipources [''subdir''] ''out'' (Some ''s'') example_world =
      (Inr (), print_line (finish_message (length [''subdir'']) ''out''
           (format_2f (archive_bytes example_world [(''subdir/b.txt'', 1)] True) (1024 * 1024)))
         (log_event (EvGetsize ''out/s.zip'')
           (snd (create_zip_file ''out/s.zip'' [''subdir''] example_world))))"
    by fastforce
  moreover from C6_close_before_summary [OF p1, of "[''subdir'']"] c1
  have "stdout (snd (create_zip_file ''out/s.zip'' [''subdir''] example_world)) = []"
    by (simp add: create_zip_file_def example_defs library_defs)
  ultimately have r1: "stdout (snd (zipources [''subdir''] ''out'' (Some ''s'') example_world)) =
     [''The backup of 1 sources has been completed and saved to out (size: 0.00 MB).'']"
    by (simp add: print_line_def example_defs message_defs)
  from C6_close_before_summary [OF p2, of "[''locked'']"] c2 o2 e
  have r2: "zipources [''locked''] ''out'' (Some ''l'') example_world =
     create_zip_file ''out/l.zip'' [''locked''] example_world"
    "stdout (snd (create_zip_file ''out/l.zip'' [''locked''] example_world)) = []"
    "archive_open (snd (create_zip_file ''out/l.zip'' [''locked''] example_world))
       [''work'', ''out'', ''l.zip'']"
    by (metis, metis, metis)
  from p1 p2 c1 s1 c2 o2 r1 r2 show ?thesis
    by simp
qed

section \<open>Worlds with the same files\<close>

lemma same_files_refl [simp]: "same_files w w"
  by (simp add: same_files_def)

lemma same_files_log_event [simp]:
  "same_files (log_event e w) v = same_files w v" "same_files w (log_event e v) = same_files w v"
  by (simp_all add: same_files_def)

lemma namei_same_files: "same_files w v \<Longrightarrow> namei v p = namei w p"
  by (simp add: namei_def same_files_def)

lemma os_stat_same_files:
  assumes "same_files w v"
  shows "os_stat v p = os_stat w p"
proof -
  from assms have r: "root v = root w" and n: "namei v p = namei w p"
    by (simp_all add: same_files_def namei_def)
  show ?thesis
    by (simp add: os_stat_def r n cong: sum.case_cong)
qed

lemma os_walk_same_files: "same_files w v \<Longrightarrow> os_walk v p = os_walk w p"
  using os_stat_same_files [of w v p] by (simp add: os_walk_def)


lemma zip_write_same_files:
  assumes "same_files w v"
  shows "fst (zip_write h p v) = fst (zip_write h p w) \<and>
         same_files (snd (zip_write h p w)) (snd (zip_write h p v))"
proof -
  from assms have r: "root v = root w" and a: "archive_bytes v = archive_bytes w"
    and c: "cwd v = cwd w"
    by (simp_all add: same_files_def)
  have s: "os_stat v p = os_stat w p"
    by (rule os_stat_same_files [OF assms])
  show ?thesis
  proof (cases "fs_lookup (root w) h")
    case None
    then show ?thesis
      by (simp add: zip_write_def Let_def r a c s same_files_def)
  next
    case (Some n)
    show ?thesis
    proof (cases n)
      case (File sz rd wr)
      with Some show ?thesis
        by (simp add: zip_write_def Let_def r a c s same_files_def)
    next
      case (Dir wr ds)
      with Some show ?thesis
        by (simp add: zip_write_def Let_def r a c s same_files_def)
    next
      case (Archive es fin)
      show ?thesis
      proof (cases fin)
        case True
        with Some Archive show ?thesis
          by (simp add: zip_write_def Let_def r a c s same_files_def)
      next
        case False
        show ?thesis
        proof (cases "os_stat w p")
          case (Inl e)
          with Some Archive False show ?thesis
            by (simp add: zip_write_def Let_def r a c s same_files_def)
        next
          case (Inr m)
          with Some Archive False show ?thesis
            by (cases m) (simp_all add: zip_write_def Let_def r a c s same_files_def)
        qed
      qed
    qed
  qed
qed

lemma write_files_same_files:
  assumes "same_files w v"
  shows "fst (write_files h d files v) = fst (write_files h d files w) \<and>
         same_files (snd (write_files h d files w)) (snd (write_files h d files v))"
  using assms
proof (induction files arbitrary: w v)
  case Nil
  then show ?case by simp
next
  case (Cons f files)
  obtain x w1 where zw: "zip_write h (os_path_join d f) w = (x, w1)"
    by (cases "zip_write h (os_path_join d f) w") auto
  obtain y v1 where zv: "zip_write h (os_path_join d f) v = (y, v1)"
    by (cases "zip_write h (os_path_join d f) v") auto
  from zip_write_same_files [OF Cons.prems, of h "os_path_join d f"] zw zv
  have xy: "y = x" and sf: "same_files w1 v1"
    by simp_all
  show ?case
  proof (cases x)
    case (Inl e)
    with zw zv xy sf show ?thesis
      by (simp add: Let_def)
  next
    case (Inr u)
    with zw zv xy Cons.IH [OF sf] show ?thesis
      by (simp add: Let_def)
  qed
qed

lemma walk_loop_same_files:
  assumes "same_files w v"
  shows "fst (walk_loop h ts v) = fst (walk_loop h ts w) \<and>
         same_files (snd (walk_loop h ts w)) (snd (walk_loop h ts v))"
  using assms
proof (induction ts arbitrary: w v)
  case Nil
  then show ?case by simp
next
  case (Cons t ts)
  obtain root_dir dirs files where t: "t = (root_dir, dirs, files)"
    by (cases t) auto
  obtain x w1 where zw: "write_files h root_dir files w = (x, w1)"
    by (cases "write_files h root_dir files w") auto
  obtain y v1 where zv: "write_files h root_dir files v = (y, v1)"
    by (cases "write_files h root_dir files v") auto
  from write_files_same_files [OF Cons.prems, of h root_dir files] zw zv
  have xy: "y = x" and sf: "same_files w1 v1"
    by simp_all
  show ?case
  proof (cases x)
    case (Inl e)
    with zw zv xy sf show ?thesis
      by (simp add: t)
  next
    case (Inr u)
    with zw zv xy Cons.IH [OF sf] show ?thesis
      by (simp add: t)
  qed
qed

lemma source_loop_same_files:
  assumes "same_files w v"
  shows "fst (source_loop h sources v) = fst (source_loop h sources w) \<and>
         same_files (snd (source_loop h sources w)) (snd (source_loop h sources v))"
  using assms
proof (induction sources arbitrary: w v)
  case Nil
  then show ?case by simp
next
  case (Cons s sources)
  have ow: "os_walk v s = os_walk w s"
    by (rule os_walk_same_files [OF Cons.prems])
  obtain x w1 where zw: "walk_loop h (os_walk w s) w = (x, w1)"
    by (cases "walk_loop h (os_walk w s) w") auto
  obtain y v1 where zv: "walk_loop h (os_walk w s) v = (y, v1)"
    by (cases "walk_loop h (os_walk w s) v") auto
  from walk_loop_same_files [OF Cons.prems, of h "os_walk w s"] zw zv
  have xy: "y = x" and sf: "same_files w1 v1"
    by simp_all
  show ?case
  proof (cases x)
    case (Inl e)
    with zw zv xy sf show ?thesis
      by (simp add: ow)
  next
    case (Inr u)
    with zw zv xy Cons.IH [OF sf] show ?thesis
      by (simp add: ow)
  qed
qed


section \<open>A second run onto the archive of the first\<close>

lemma create_zip_file_again:
  assumes run: "create_zip_file zp sources w = (Inr u, w3)" and sf: "same_files w3 v"
  shows "\<exists>h w1 v1 v3. zipfile_open zp w = (Inr h, w1) \<and> zipfile_open zp v = (Inr h, v1) \<and>
           same_files w1 v1 \<and> create_zip_file zp sources v = (Inr (), v3) \<and> same_files w3 v3"
proof -
  obtain r1 w1 where op: "zipfile_open zp w = (r1, w1)"
    by (cases "zipfile_open zp w") auto
  from run op obtain h where r1: "r1 = Inr h"
    by (cases r1) (auto simp: create_zip_file_def)
  note op = op [unfolded r1]
  obtain r2 w2 where sl: "source_loop h sources w1 = (r2, w2)"
    by (cases "source_loop h sources w1") auto
  from run op sl have r2: "r2 = Inr ()" and cl: "zip_close h w2 = (Inr u, w3)"
    by (cases r2; simp add: create_zip_file_def)+
  note sl = sl [unfolded r2]
  note o = zipfile_open_Inr [OF op] and oo = zipfile_open_opens [OF op]
  have wr: "written h w1 (walked_paths w1 sources) w2"
    using source_loop_outcome [OF oo(2), of sources] sl by simp
  then obtain es es' where
    e0: "fs_lookup (root w1) h = Some (Archive es False)" and
    rw2: "root w2 = fs_put (root w1) h (Archive (es @ es') False)" and
    cw2: "cwd w2 = cwd w1" and aw2: "archive_bytes w2 = archive_bytes w1"
    unfolding written_def by blast
  from e0 oo(1) have es: "es = []"
    by simp
  have rw1: "root w1 = fs_put (root w) h (Archive [] False)" and cw1: "cwd w1 = cwd w"
    and aw1: "archive_bytes w1 = archive_bytes w"
    by (simp_all add: o(4))
  have rw2': "root w2 = fs_put (root w) h (Archive es' False)"
    by (simp add: rw2 es rw1 fs_put_put)
  have l2: "fs_lookup (root w2) h = Some (Archive es' False)"
    unfolding rw2' by (rule fs_lookup_put_same [OF o(3)])
  have w3: "w3 = (log_event (EvZipClose h) w2)\<lparr>root := fs_put (root w2) h (Archive es' True)\<rparr>"
    using cl zip_close_open [OF l2] by simp
  have rw3: "root w3 = fs_put (root w) h (Archive es' True)"
    by (simp add: w3 rw2' fs_put_put)
  have l3: "fs_lookup (root w3) h = Some (Archive es' True)"
    unfolding rw3 by (rule fs_lookup_put_same [OF o(3)])
  have n2: "namei w2 zp = Inr h"
    using written_namei [OF wr, of zp] oo(3) by simp
  have cw3: "cwd w3 = cwd w2" and aw3: "archive_bytes w3 = archive_bytes w2"
    by (simp_all add: w3)
  have "same_shape (root w2) (root w3)"
    using same_shape_put_replace [OF l2, of "Archive es' True"] by (simp add: w3)
  then have "namei w3 zp = namei w2 zp"
    using cw3 by (rule namei_same_shape)
  with n2 have n3: "namei w3 zp = Inr h"
    by simp
  from sf have rv: "root v = root w3" and cv: "cwd v = cwd w3" and av: "archive_bytes v = archive_bytes w3"
    by (simp_all add: same_files_def)
  have nv: "namei v zp = Inr h"
    using namei_same_files [OF sf, of zp] n3 by simp
  define v1 where "v1 = (log_event (EvZipOpen zp) v)\<lparr>root := fs_put (root v) h (Archive [] False)\<rparr>"
  have opv: "zipfile_open zp v = (Inr h, v1)"
    using nv l3 by (simp add: zipfile_open_def Let_def rv v1_def)
  have "root v1 = root w1"
    by (simp add: v1_def rv rw3 rw1 fs_put_put)
  moreover have "cwd v1 = cwd w1"
    by (simp add: v1_def cv cw3 cw2)
  moreover have "archive_bytes v1 = archive_bytes w1"
    by (simp add: v1_def av aw3 aw2)
  ultimately have sf1: "same_files w1 v1"
    by (simp add: same_files_def)
  obtain r2v v2 where slv: "source_loop h sources v1 = (r2v, v2)"
    by (cases "source_loop h sources v1") auto
  from source_loop_same_files [OF sf1, of h sources] sl slv
  have r2v: "r2v = Inr ()" and sf2: "same_files w2 v2"
    by simp_all
  from sf2 have rv2: "root v2 = root w2" and cv2: "cwd v2 = cwd w2"
    and av2: "archive_bytes v2 = archive_bytes w2"
    by (simp_all add: same_files_def)
  define v3 where "v3 = (log_event (EvZipClose h) v2)\<lparr>root := fs_put (root v2) h (Archive es' True)\<rparr>"
  have clv: "zip_close h v2 = (Inr (), v3)"
    unfolding v3_def by (rule zip_close_open) (simp add: rv2 l2)
  have "create_zip_file zp sources v = (Inr (), v3)"
    by (simp add: create_zip_file_def opv slv r2v clv)
  moreover have "same_files w3 v3"
    by (simp add: same_files_def v3_def w3 rv2 cv2 av2)
  ultimately show ?thesis
    using op opv sf1 by blast
qed


lemma walked_paths_same_files: "same_files w v \<Longrightarrow> walked_paths v sources = walked_paths w sources"
  by (simp add: walked_paths_def os_walk_same_files [of w v])

text \<open>
  C9. With an explicit name \<open>X\<close> the archive path does not depend on the timestamp: for
  every destination \<open>d\<close> and any two timestamp strings it is \<open>d/X.zip\<close>. Two successive
  runs of the backup with the same sources, destination and name therefore work on the
  same path. If the first run returned without an exception, it opened the archive at
  that path, wrote the walked files, closed the archive, asked for its size and printed
  the summary, and the path then names a finalized archive. A second run at any later
  time opens the same path without an error, which empties the archive of the first
  run; it makes the same calls as the first, returns without an exception, prints the
  same summary, and leaves a finalized archive with the same entries at the path, the
  rest of the file system being as the first run left it. The runs are runs of
  \<open>zipources\<close>, the function that does the backup.
\<close>

theorem C9_explicit_name_same_path:
  "create_zip_filepath t1 d (Some x) = d @ ''/'' @ x @ ''.zip'' \<and>
   create_zip_filepath t2 d (Some x) = create_zip_filepath t1 d (Some x) \<and>
   (zipources sources d (Some x) w = (Inr u, w') \<longrightarrow>
      (\<exists>h es ps msg v1 w''.
         trace w' = trace w @ [EvZipOpen (create_zip_filepath t1 d (Some x))] @
           map EvZipWrite ps @
           [EvZipClose h, EvGetsize (create_zip_filepath t1 d (Some x)), EvPrint msg] \<and>
         os_stat w' (create_zip_filepath t1 d (Some x)) = Inr (Archive es True) \<and>
         zipfile_open (create_zip_filepath t2 d (Some x)) (w'\<lparr>clock := later\<rparr>) = (Inr h, v1) \<and>
         os_stat v1 (create_zip_filepath t2 d (Some x)) = Inr (Archive [] False) \<and>
         zipources sources d (Some x) (w'\<lparr>clock := later\<rparr>) = (Inr (), w'') \<and>
         trace w'' = trace w' @ [EvZipOpen (create_zip_filepath t2 d (Some x))] @
           map EvZipWrite ps @
           [EvZipClose h, EvGetsize (create_zip_filepath t2 d (Some x)), EvPrint msg] \<and>
         stdout w'' = stdout w' @ [msg] \<and>
         os_stat w'' (create_zip_filepath t2 d (Some x)) = Inr (Archive es True) \<and>
         root w'' = root w'))"
proof (intro conjI impI)
  show "create_zip_filepath t1 d (Some x) = d @ ''/'' @ x @ ''.zip''"
    by (simp add: create_zip_filepath_def)
  show "create_zip_filepath t2 d (Some x) = create_zip_filepath t1 d (Some x)"
    by (simp add: create_zip_filepath_def)
next
  define zp where "zp = d @ ''/'' @ x @ ''.zip''"
  let ?v = "w'\<lparr>clock := later\<rparr>"
  have zp: "create_zip_filepath t d (Some x) = zp" for t
    by (simp add: create_zip_filepath_def zp_def)
  assume run: "zipources sources d (Some x) w = (Inr u, w')"
  obtain r3 w3 where c: "create_zip_file zp sources w = (r3, w3)"
    by (cases "create_zip_file zp sources w") auto
  from run c have r3: "r3 = Inr ()" and pf: "print_finish_message sources d zp w3 = (Inr u, w')"
    by (cases r3; simp add: zipources_def Let_def zp)+
  note c = c [unfolded r3]
  from create_zip_file_result [OF c] obtain h0 w10 es where
    st: "os_stat w3 zp = Inr (Archive es True)" and
    op0: "zipfile_open zp w = (Inr h0, w10)" and
    tr3: "trace w3 = trace w @ [EvZipOpen zp] @ map EvZipWrite (walked_paths w10 sources) @
            [EvZipClose h0]"
    by blast
  define msg where "msg = finish_message (length sources) d
                 (format_2f (archive_bytes w3 es True) (1024 * 1024))"
  from pf print_finish_message_of_archive [OF st, of sources d]
  have w': "w' = print_line msg (log_event (EvGetsize zp) w3)"
    by (simp add: msg_def)
  have sf: "same_files w3 ?v" and sf': "same_files w3 w'"
    by (simp_all add: same_files_def w' print_line_def)
  from create_zip_file_again [OF c sf] obtain h w1 v1 v3 where
    op: "zipfile_open zp w = (Inr h, w1)" and opv: "zipfile_open zp ?v = (Inr h, v1)" and
    sf1: "same_files w1 v1" and
    cv: "create_zip_file zp sources ?v = (Inr (), v3)" and sf3: "same_files w3 v3"
    by blast
  from op op0 have h0: "h0 = h" and w10: "w10 = w1"
    by simp_all
  from create_zip_file_result [OF cv] opv have
    trv: "trace v3 = trace ?v @ [EvZipOpen zp] @ map EvZipWrite (walked_paths v1 sources) @
            [EvZipClose h]" and sov: "stdout v3 = stdout ?v"
    by auto
  have wp: "walked_paths v1 sources = walked_paths w1 sources"
    by (rule walked_paths_same_files [OF sf1])
  have stv: "os_stat v3 zp = Inr (Archive es True)"
    using os_stat_same_files [OF sf3, of zp] st by simp
  have av: "archive_bytes v3 = archive_bytes w3"
    using sf3 by (simp add: same_files_def)
  define w'' where "w'' = print_line msg (log_event (EvGetsize zp) v3)"
  have t1: "trace w' = trace w @ [EvZipOpen zp] @ map EvZipWrite (walked_paths w1 sources) @
       [EvZipClose h, EvGetsize zp, EvPrint msg]"
    by (simp add: w' print_line_def log_event_def tr3 h0 w10)
  have s1: "os_stat w' zp = Inr (Archive es True)"
    using os_stat_same_files [OF sf', of zp] st by simp
  have s2: "os_stat v1 zp = Inr (Archive [] False)"
    using zipfile_open_opens(1,3) [OF opv] by (simp add: os_stat_def)
  have z2: "zipources sources d (Some x) ?v = (Inr (), w'')"
    using cv print_finish_message_of_archive [OF stv, of sources d]
    by (simp add: zipources_def Let_def zp w''_def msg_def av)
  have t2: "trace w'' = trace w' @ [EvZipOpen zp] @ map EvZipWrite (walked_paths w1 sources) @
       [EvZipClose h, EvGetsize zp, EvPrint msg]"
    by (simp add: w''_def print_line_def log_event_def trv wp)
  have o2: "stdout w'' = stdout w' @ [msg]"
    by (simp add: w''_def print_line_def log_event_def sov)
  have s3: "os_stat w'' zp = Inr (Archive es True)"
  proof -
    have "same_files v3 w''"
      by (simp add: same_files_def w''_def print_line_def)
    from os_stat_same_files [OF this, of zp] stv show ?thesis
      by simp
  qed
  have r: "root w'' = root w'"
    using sf3 by (simp add: w''_def w' print_line_def same_files_def)
  from t1 s1 opv s2 z2 t2 o2 s3 r
  show "\<exists>h es ps msg v1 w''.
         trace w' = trace w @ [EvZipOpen (create_zip_filepath t1 d (Some x))] @
           map EvZipWrite ps @
           [EvZipClose h, EvGetsize (create_zip_filepath t1 d (Some x)), EvPrint msg] \<and>
         os_stat w' (create_zip_filepath t1 d (Some x)) = Inr (Archive es True) \<and>
         zipfile_open (create_zip_filepath t2 d (Some x)) (w'\<lparr>clock := later\<rparr>) = (Inr h, v1) \<and>
         os_stat v1 (create_zip_filepath t2 d (Some x)) = Inr (Archive [] False) \<and>
         zipources sources d (Some x) (w'\<lparr>clock := later\<rparr>) = (Inr (), w'') \<and>
         trace w'' = trace w' @ [EvZipOpen (create_zip_filepath t2 d (Some x))] @
           map EvZipWrite ps @
           [EvZipClose h, EvGetsize (create_zip_filepath t2 d (Some x)), EvPrint msg] \<and>
         stdout w'' = stdout w' @ [msg] \<and>
         os_stat w'' (create_zip_filepath t2 d (Some x)) = Inr (Archive es True) \<and>
         root w'' = root w'"
    unfolding zp by blast
qed

theorem C9_explicit_name_same_path_witness:
  "create_zip_filepath ''03-11-26_10-00-00'' ''out'' (Some ''s'') = ''out/s.zip'' \<and>
   create_zip_filepath ''04-11-26_23-59-59'' ''out'' (Some ''s'') = ''out/s.zip'' \<and>
   zipources [''subdir''] ''out'' (Some ''s'') example_world =
     (Inr (), snd (zipources [''subdir''] ''out'' (Some ''s'') example_world)) \<and>
   trace (snd (zipources [''subdir''] ''out'' (Some ''s'') example_world)) =
     [EvZipOpen ''out/s.zip'', EvZipWrite ''subdir/b.txt'',
      EvZipClose [''work'', ''out'', ''s.zip''], EvGetsize ''out/s.zip'',
      EvPrint ''The backup of 1 sources has been completed and saved to out (size: 0.00 MB).''] \<and>
   os_stat (snd (zipources [''subdir''] ''out'' (Some ''s'') example_world)) ''out/s.zip'' =
     Inr (Archive [(''subdir/b.txt'', 1)] True) \<and>
   zipources [''subdir''] ''out'' (Some ''s'')
       ((snd (zipources [''subdir''] ''out'' (Some ''s'') example_world))
          \<lparr>clock := (clock example_world)\<lparr>hour := 23\<rparr>\<rparr>) =
     (Inr (), snd (zipources [''subdir''] ''out'' (Some ''s'')
       ((snd (zipources [''subdir''] ''out'' (Some ''s'') example_world))
          \<lparr>clock := (clock example_world)\<lparr>hour := 23\<rparr>\<rparr>))) \<and>
   trace (snd (zipources [''subdir''] ''out'' (Some ''s'')
       ((snd (zipources [''subdir''] ''out'' (Some ''s'') example_world))
          \<lparr>clock := (clock example_world)\<lparr>hour := 23\<rparr>\<rparr>))) =
     trace (snd (zipources [''subdir''] ''out'' (Some ''s'') example_world)) @
     trace (snd (zipources [''subdir''] ''out'' (Some ''s'') example_world)) \<and>
   os_stat (snd (zipources [''subdir''] ''out'' (Some ''s'')
       ((snd (zipources [''subdir''] ''out'' (Some ''s'') example_world))
          \<lparr>clock := (clock example_world)\<lparr>hour := 23\<rparr>\<rparr>))) ''out/s.zip'' =
     Inr (Archive [(''subdir/b.txt'', 1)] True) \<and>
   root (snd (zipources [''subdir''] ''out'' (Some ''s'')
       ((snd (zipources [''subdir''] ''out'' (Some ''s'') example_world))
          \<lparr>clock := (clock example_world)\<lparr>hour := 23\<rparr>\<rparr>))) =
     root (snd (zipources [''subdir''] ''out'' (Some ''s'') example_world))"
proof -
  define w' where "w' = snd (zipources [''subdir''] ''out'' (Some ''s'') example_world)"
  define later where "later = (clock example_world)\<lparr>hour := 23\<rparr>"
  have p: "create_zip_filepath ''03-11-26_10-00-00'' ''out'' (Some ''s'') = ''out/s.zip''"
    "create_zip_filepath ''04-11-26_23-59-59'' ''out'' (Some ''s'') = ''out/s.zip''"
    by (simp_all add: create_zip_filepath_def)
  have z1: "zipources [''subdir''] ''out'' (Some ''s'') example_world = (Inr (), w')"
    unfolding w'_def
    by (simp add: zipources_def create_zip_filepath_def create_zip_file_def
        print_finish_message_def example_defs library_defs)
  have t0: "trace example_world = []"
    by (simp add: example_defs)
  have t1: "trace w' =
     [EvZipOpen ''out/s.zip'', EvZipWrite ''subdir/b.txt'',
      EvZipClose [''work'', ''out'', ''s.zip''], EvGetsize ''out/s.zip'',
      EvPrint ''The backup of 1 sources has been completed and saved to out (size: 0.00 MB).'']"
    unfolding w'_def
    by (simp add: zipources_def create_zip_filepath_def create_zip_file_def
        print_finish_message_def example_defs library_defs message_defs)
  have s1: "os_stat w' ''out/s.zip'' = Inr (Archive [(''subdir/b.txt'', 1)] True)"
    unfolding w'_def
    by (simp add: zipources_def create_zip_filepath_def create_zip_file_def
        print_finish_message_def example_defs library_defs)
  from C9_explicit_name_same_path
    [of "''03-11-26_10-00-00''" "''out''" "''s''" "''04-11-26_23-59-59''" "[''subdir'']"
      example_world "()" w' later] z1
  obtain h es ps msg w'' where
    a: "trace w' = trace example_world @ [EvZipOpen ''out/s.zip''] @ map EvZipWrite ps @
         [EvZipClose h, EvGetsize ''out/s.zip'', EvPrint msg]" and
    b: "os_stat w' ''out/s.zip'' = Inr (Archive es True)" and
    z2: "zipources [''subdir''] ''out'' (Some ''s'') (w'\<lparr>clock := later\<rparr>) = (Inr (), w'')" and
    c: "trace w'' = trace w' @ [EvZipOpen ''out/s.zip''] @ map EvZipWrite ps @
         [EvZipClose h, EvGetsize ''out/s.zip'', EvPrint msg]" and
    d: "os_stat w'' ''out/s.zip'' = Inr (Archive es True)" and
    e: "root w'' = root w'"
    unfolding p by blast
  from a c t0 have t2: "trace w'' = trace w' @ trace w'"
    by simp
  from b d s1 have s2: "os_stat w'' ''out/s.zip'' = Inr (Archive [(''subdir/b.txt'', 1)] True)"
    by simp
  from z2 have w'': "snd (zipources [''subdir''] ''out'' (Some ''s'') (w'\<lparr>clock := later\<rparr>)) = w''"
    by simp
  from p z1 t1 s1 z2 t2 s2 e show ?thesis
    unfolding w'' w'_def [symmetric] later_def [symmetric] by simp
qed


end
